theory Spec2Isabelle
  imports Complex_Main
begin

section \<open>JavaScript numbers\<close>

text \<open>
  A JavaScript number is modelled as an exact real or one of the three IEEE specials.
  Rounding of finite results is not modelled; what is modelled is where a non-finite value
  is born (division by zero) and how it travels through \<open>+\<close>, \<open>-\<close>, \<open>*\<close>, \<open>Math.sqrt\<close>
  and the comparisons. The only divisor the simulation can make zero is a \<open>Math.sqrt\<close>
  result, which is never the negative zero, so zero has one sign here.

  Node coordinates, timestamps, link qualities and counters are finite in every run
  (they come from \<open>Math.random\<close>, \<open>Date.now\<close> and guarded arithmetic) and are kept
  as \<open>real\<close>, \<open>nat\<close> and \<open>int\<close>; packet position and progress are where the unguarded division
  of the movement step writes, and are kept as \<open>jsnum\<close>.
\<close>

datatype jsnum = Fin real | PInf | NInf | NaN

fun isFinite :: "jsnum \<Rightarrow> bool" where
  "isFinite (Fin _) = True"
| "isFinite _ = False"

fun jneg :: "jsnum \<Rightarrow> jsnum" where
  "jneg (Fin a) = Fin (- a)"
| "jneg PInf = NInf"
| "jneg NInf = PInf"
| "jneg NaN = NaN"

fun jadd :: "jsnum \<Rightarrow> jsnum \<Rightarrow> jsnum" where
  "jadd NaN _ = NaN"
| "jadd _ NaN = NaN"
| "jadd (Fin a) (Fin b) = Fin (a + b)"
| "jadd PInf NInf = NaN"
| "jadd NInf PInf = NaN"
| "jadd PInf _ = PInf"
| "jadd _ PInf = PInf"
| "jadd NInf _ = NInf"
| "jadd _ NInf = NInf"

definition jsub :: "jsnum \<Rightarrow> jsnum \<Rightarrow> jsnum" where
  "jsub a b = jadd a (jneg b)"

fun jmul :: "jsnum \<Rightarrow> jsnum \<Rightarrow> jsnum" where
  "jmul NaN _ = NaN"
| "jmul _ NaN = NaN"
| "jmul (Fin a) (Fin b) = Fin (a * b)"
| "jmul (Fin a) PInf = (if a = 0 then NaN else if 0 < a then PInf else NInf)"
| "jmul (Fin a) NInf = (if a = 0 then NaN else if 0 < a then NInf else PInf)"
| "jmul PInf (Fin b) = (if b = 0 then NaN else if 0 < b then PInf else NInf)"
| "jmul NInf (Fin b) = (if b = 0 then NaN else if 0 < b then NInf else PInf)"
| "jmul PInf PInf = PInf"
| "jmul NInf NInf = PInf"
| "jmul PInf NInf = NInf"
| "jmul NInf PInf = NInf"

fun jdiv :: "jsnum \<Rightarrow> jsnum \<Rightarrow> jsnum" where
  "jdiv NaN _ = NaN"
| "jdiv _ NaN = NaN"
| "jdiv (Fin a) (Fin b) =
     (if b = 0 then (if a = 0 then NaN else if 0 < a then PInf else NInf) else Fin (a / b))"
| "jdiv (Fin a) PInf = Fin 0"
| "jdiv (Fin a) NInf = Fin 0"
| "jdiv PInf (Fin b) = (if 0 \<le> b then PInf else NInf)"
| "jdiv NInf (Fin b) = (if 0 \<le> b then NInf else PInf)"
| "jdiv _ _ = NaN"

fun jsqrt :: "jsnum \<Rightarrow> jsnum" where
  "jsqrt (Fin a) = (if a < 0 then NaN else Fin (sqrt a))"
| "jsqrt PInf = PInf"
| "jsqrt NInf = NaN"
| "jsqrt NaN = NaN"

fun jlt :: "jsnum \<Rightarrow> jsnum \<Rightarrow> bool" where
  "jlt NaN _ = False"
| "jlt _ NaN = False"
| "jlt (Fin a) (Fin b) = (a < b)"
| "jlt PInf _ = False"
| "jlt _ PInf = True"
| "jlt NInf _ = True"
| "jlt _ NInf = False"

fun jle :: "jsnum \<Rightarrow> jsnum \<Rightarrow> bool" where
  "jle NaN _ = False"
| "jle _ NaN = False"
| "jle (Fin a) (Fin b) = (a \<le> b)"
| "jle PInf PInf = True"
| "jle NInf NInf = True"
| "jle PInf _ = False"
| "jle _ PInf = True"
| "jle NInf _ = True"
| "jle _ NInf = False"

definition jge :: "jsnum \<Rightarrow> jsnum \<Rightarrow> bool" where
  "jge a b = jle b a"

text \<open>\<open>Number.prototype.toFixed(d)\<close> followed by \<open>parseFloat\<close>: the sign is set aside,
  the magnitude goes to the nearest multiple of \<open>10^-d\<close> (the larger one on a tie), and
  the sign is put back, so a negative tie moves away from zero. The argument is the exact
  real: that the double nearest to a decimal tie may lie just below it (16.075 is stored
  as 16.07499...) and then rounds down is, like all rounding of finite results, not
  modelled.\<close>

definition toFixed :: "nat \<Rightarrow> real \<Rightarrow> real" where
  "toFixed d v =
     (if v < 0 then - (of_int (round (- v * 10 ^ d)) / 10 ^ d)
      else of_int (round (v * 10 ^ d)) / 10 ^ d)"

text \<open>Indexing an array with a computed number: \<open>undefined\<close> outside the array.\<close>

definition at_index :: "'a list \<Rightarrow> int \<Rightarrow> 'a option" where
  "at_index xs i = (if 0 \<le> i \<and> i < int (length xs) then Some (xs ! nat i) else None)"

section \<open>Data model (types.ts)\<close>

datatype AttackType = NONE | CONSTANT | REACTIVE | RANDOM | SWEEP | INTELLIGENT

record node =
  nid :: nat
  nx :: real
  ny :: real
  vx :: real
  vy :: real
  isJammer :: bool
  isTarget :: bool
  battery :: real
  packetQueue :: nat

record link =
  source :: nat
  target :: nat
  quality :: real

record packet =
  pid :: string
  sourceId :: nat
  targetId :: nat
  px :: jsnum
  py :: jsnum
  progress :: jsnum
  delivered :: bool
  lost :: bool
  createdAt :: real

record SimulationLog =
  timestamp :: real
  attackKind :: AttackType
  pdr :: real
  plr :: real
  throughput :: real
  latency :: real
  energy :: real
  avgLinkQuality :: real
  jammingIntensity :: real


section \<open>Simulation state and environment (App.tsx)\<close>

definition NODE_COUNT :: nat where "NODE_COUNT = 40"
definition WIDTH :: real where "WIDTH = 800"
definition HEIGHT :: real where "HEIGHT = 500"
definition MAX_RANGE :: real where "MAX_RANGE = 120"
definition PACKET_SPEED :: real where "PACKET_SPEED = 3"
definition LOG_INTERVAL :: real where "LOG_INTERVAL = 500"

record randomAttackState =
  isActive :: bool
  nextSwitch :: real

text \<open>The refs and React state of the \<open>App\<close> component that the simulation reads or writes.
  \<open>isRunning\<close> and \<open>attackType\<close> are the two values the \<open>updateSimulation\<close> closure
  captures; \<open>links\<close> is the link snapshot handed to the renderer.\<close>

record sim =
  nodesRef :: "node list"
  packetsRef :: "packet list"
  links :: "link list"
  logsRef :: "SimulationLog list"
  fullDatasetRef :: "SimulationLog list"
  frameRef :: nat
  lastLogTimeRef :: real
  packetsSentRef :: nat
  packetsDeliveredRef :: nat
  packetsLostRef :: nat
  accumulatedEnergyRef :: real
  latencyAccumulatorRef :: "real list"
  randomAttackStateRef :: randomAttackState
  isRunning :: bool
  attackType :: AttackType

text \<open>What one call of \<open>updateSimulation\<close> takes from outside: the clock, the
  \<open>Math.random\<close> draws (one field per call site; the loss draw and the delivery clock are
  indexed by the packet's position in the list) and the handle that
  \<open>requestAnimationFrame\<close> returns.\<close>

record env =
  now :: real
  rndSwitchActive :: real
  rndSwitchDuration :: real
  rndGen :: real
  rndSource :: real
  rndTarget :: real
  rndId :: string
  rndLoss :: "nat \<Rightarrow> real"
  nowDelivered :: "nat \<Rightarrow> real"
  rafHandle :: nat

datatype error = TypeError

datatype event = NoEvent | LostEvent | DeliveredEvent real

text \<open>\<open>dist\<close>, at the two argument types it is called with: two nodes, and a packet and a
  node.\<close>

definition dist_nodes :: "node \<Rightarrow> node \<Rightarrow> real" where
  "dist_nodes n1 n2 = sqrt ((nx n2 - nx n1)\<^sup>2 + (ny n2 - ny n1)\<^sup>2)"

definition dist_packet_node :: "packet \<Rightarrow> node \<Rightarrow> jsnum" where
  "dist_packet_node p n =
     (let dx = jsub (Fin (nx n)) (px p); dy = jsub (Fin (ny n)) (py p)
      in jsqrt (jadd (jmul dx dx) (jmul dy dy)))"

text \<open>The body of the creation loop: node \<open>i\<close>, from its four \<open>Math.random\<close> draws.\<close>

definition newNode :: "(nat \<Rightarrow> real \<times> real \<times> real \<times> real) \<Rightarrow> nat \<Rightarrow> node" where
  "newNode r i =
     (case r i of (a, b, c, d) \<Rightarrow>
        \<lparr>nid = i, nx = a * WIDTH, ny = b * HEIGHT,
         vx = (c - 0.5) * 0.5, vy = (d - 0.5) * 0.5,
         isJammer = (i = 0), isTarget = False, battery = 100, packetQueue = 0\<rparr>)"

definition initializeNodes :: "(nat \<Rightarrow> real \<times> real \<times> real \<times> real) \<Rightarrow> node list" where
  "initializeNodes r = map (newNode r) [0..<NODE_COUNT]"

definition initialSim :: "(nat \<Rightarrow> real \<times> real \<times> real \<times> real) \<Rightarrow> sim" where
  "initialSim r =
     \<lparr>nodesRef = initializeNodes r, packetsRef = [], links = [], logsRef = [],
      fullDatasetRef = [], frameRef = 0, lastLogTimeRef = 0, packetsSentRef = 0,
      packetsDeliveredRef = 0, packetsLostRef = 0, accumulatedEnergyRef = 0,
      latencyAccumulatorRef = [],
      randomAttackStateRef = \<lparr>isActive = False, nextSwitch = 0\<rparr>,
      isRunning = False, attackType = NONE\<rparr>"

subsection \<open>1. Move nodes\<close>

definition moveNode :: "node \<Rightarrow> node" where
  "moveNode n =
     (let x = nx n + vx n;
          y = ny n + vy n;
          vx' = (if x \<le> 0 \<or> x \<ge> WIDTH then vx n * (- 1) else vx n);
          vy' = (if y \<le> 0 \<or> y \<ge> HEIGHT then vy n * (- 1) else vy n)
      in n\<lparr>nx := x, ny := y, vx := vx', vy := vy'\<rparr>)"

subsection \<open>2. Attack parameters\<close>

definition neighborCount :: "node list \<Rightarrow> node \<Rightarrow> int" where
  "neighborCount currentNodes n =
     int (length (filter (\<lambda>other. nid n \<noteq> nid other \<and> dist_nodes n other < MAX_RANGE)
                         currentNodes))"

definition selectStep :: "node list \<Rightarrow> int \<times> node option \<Rightarrow> node \<Rightarrow> int \<times> node option" where
  "selectStep currentNodes acc n =
     (if isJammer n then acc
      else if neighborCount currentNodes n > fst acc
           then (neighborCount currentNodes n, Some n) else acc)"

definition selectTarget :: "node list \<Rightarrow> node option" where
  "selectTarget currentNodes = snd (foldl (selectStep currentNodes) (- 1, None) currentNodes)"

definition markTarget :: "node option \<Rightarrow> node list \<Rightarrow> node list" where
  "markTarget targetNode currentNodes =
     map (\<lambda>n. n\<lparr>isTarget := (case targetNode of None \<Rightarrow> False | Some t \<Rightarrow> nid n = nid t)\<rparr>)
         currentNodes"

definition clearTargets :: "node list \<Rightarrow> node list" where
  "clearTargets currentNodes = map (\<lambda>n. n\<lparr>isTarget := False\<rparr>) currentNodes"

text \<open>The result is (jammingActive, jammingPower, currentNodes, randomAttackStateRef).\<close>

definition determineAttack ::
  "env \<Rightarrow> sim \<Rightarrow> node option \<Rightarrow> node list \<Rightarrow> packet list
     \<Rightarrow> bool \<times> real \<times> node list \<times> randomAttackState" where
  "determineAttack e s jammer currentNodes currentPackets =
     (case jammer of
        None \<Rightarrow> (False, 0, clearTargets currentNodes, randomAttackStateRef s)
      | Some j \<Rightarrow>
         (case attackType s of
            NONE \<Rightarrow> (False, 0, clearTargets currentNodes, randomAttackStateRef s)
          | CONSTANT \<Rightarrow> (True, 1, currentNodes, randomAttackStateRef s)
          | RANDOM \<Rightarrow>
              (let st = (if now e > nextSwitch (randomAttackStateRef s)
                         then \<lparr>isActive = (rndSwitchActive e > 0.5),
                               nextSwitch = now e + (rndSwitchDuration e * 1500 + 500)\<rparr>
                         else randomAttackStateRef s)
               in (isActive st, if isActive st then 1 else 0, currentNodes, st))
          | REACTIVE \<Rightarrow>
              (let packetNearby =
                     list_ex (\<lambda>p. \<not> delivered p \<and> \<not> lost p
                                  \<and> jlt (dist_packet_node p j) (Fin 100)) currentPackets
               in (packetNearby, if packetNearby then 1 else 0, currentNodes,
                   randomAttackStateRef s))
          | SWEEP \<Rightarrow> (True, (sin (now e / 500) + 1) / 2, currentNodes, randomAttackStateRef s)
          | INTELLIGENT \<Rightarrow>
              (True, 0.9,
               if frameRef s mod 60 = 0
               then markTarget (selectTarget currentNodes) currentNodes else currentNodes,
               randomAttackStateRef s)))"

subsection \<open>3. Links and interference\<close>

definition linkQuality :: "bool \<Rightarrow> real \<Rightarrow> node option \<Rightarrow> AttackType \<Rightarrow> node \<Rightarrow> node \<Rightarrow> real" where
  "linkQuality jammingActive jammingPower jammer kind n1 n2 =
     (let d = dist_nodes n1 n2;
          q = 1 - d / MAX_RANGE;
          q' = (case jammer of
                  None \<Rightarrow> q
                | Some j \<Rightarrow>
                    if jammingActive then
                      (let distToJammer = min (dist_nodes n1 j) (dist_nodes n2 j);
                           isTargetedLink = (isTarget n1 \<or> isTarget n2);
                           powerMultiplier =
                             (if isTargetedLink \<and> kind = INTELLIGENT then 3 else 2);
                           jammerImpact =
                             max 0 (1 - distToJammer / (if kind = SWEEP then 150 else 120))
                       in q - jammerImpact * jammingPower * powerMultiplier)
                    else q)
      in max 0 (min 1 q'))"

definition mkLink :: "bool \<Rightarrow> real \<Rightarrow> node option \<Rightarrow> AttackType \<Rightarrow> node \<Rightarrow> node \<Rightarrow> link" where
  "mkLink jammingActive jammingPower jammer kind n1 n2 =
     \<lparr>source = nid n1, target = nid n2,
      quality = linkQuality jammingActive jammingPower jammer kind n1 n2\<rparr>"

text \<open>The two nested loops over \<open>i < j\<close>: the links of the first node with every later
  node in range, then the links among the later nodes.\<close>

fun computeLinks :: "bool \<Rightarrow> real \<Rightarrow> node option \<Rightarrow> AttackType \<Rightarrow> node list \<Rightarrow> link list" where
  "computeLinks jammingActive jammingPower jammer kind [] = []"
| "computeLinks jammingActive jammingPower jammer kind (n1 # rest) =
     map (mkLink jammingActive jammingPower jammer kind n1)
         (filter (\<lambda>n2. dist_nodes n1 n2 < MAX_RANGE) rest)
     @ computeLinks jammingActive jammingPower jammer kind rest"

definition avgQuality :: "link list \<Rightarrow> real" where
  "avgQuality newLinks =
     (if length newLinks > 0
      then sum_list (map quality newLinks) / real (length newLinks) else 0)"

subsection \<open>4. Packet generation\<close>

definition neighborsOf :: "node \<Rightarrow> link list \<Rightarrow> nat list" where
  "neighborsOf src newLinks =
     map (\<lambda>l. if source l = nid src then target l else source l)
         (filter (\<lambda>l. (source l = nid src \<or> target l = nid src) \<and> quality l > 0.1) newLinks)"

text \<open>\<open>Inr None\<close>: no packet this tick. \<open>Inl TypeError\<close>: \<open>source.isJammer\<close> read on
  \<open>undefined\<close>, when the node index is outside the node array.\<close>

definition generatePacket :: "env \<Rightarrow> node list \<Rightarrow> link list \<Rightarrow> error + packet option" where
  "generatePacket e currentNodes newLinks =
     (if rndGen e < 0.15 then
        (case at_index currentNodes \<lfloor>rndSource e * real (length currentNodes)\<rfloor> of
           None \<Rightarrow> Inl TypeError
         | Some src \<Rightarrow>
             if \<not> isJammer src then
               (let neighbors = neighborsOf src newLinks in
                if length neighbors > 0 then
                  (case at_index neighbors \<lfloor>rndTarget e * real (length neighbors)\<rfloor> of
                     None \<Rightarrow> Inr None
                   | Some tid \<Rightarrow>
                       (case find (\<lambda>n. nid n = tid) currentNodes of
                          None \<Rightarrow> Inr None
                        | Some tgt \<Rightarrow>
                            Inr (Some \<lparr>pid = rndId e, sourceId = nid src, targetId = tid,
                                       px = Fin (nx src), py = Fin (ny src),
                                       progress = Fin 0, delivered = False, lost = False,
                                       createdAt = now e\<rparr>)))
                else Inr None)
             else Inr None)
      else Inr None)"

subsection \<open>5. Packet movement and delivery\<close>

definition movement :: "env \<Rightarrow> nat \<Rightarrow> packet \<Rightarrow> node \<Rightarrow> node \<Rightarrow> packet \<times> event" where
  "movement e i p src tgt =
     (let totalDist = dist_nodes src tgt;
          moveStep = jdiv (Fin PACKET_SPEED) (Fin totalDist);
          newProgress = jadd (progress p) moveStep;
          newX = jadd (Fin (nx src)) (jmul (Fin (nx tgt - nx src)) newProgress);
          newY = jadd (Fin (ny src)) (jmul (Fin (ny tgt - ny src)) newProgress)
      in if jge newProgress (Fin 1)
         then (p\<lparr>px := Fin (nx tgt), py := Fin (ny tgt), progress := Fin 1, delivered := True\<rparr>,
               DeliveredEvent (nowDelivered e i - createdAt p))
         else (p\<lparr>px := newX, py := newY, progress := newProgress\<rparr>, NoEvent))"

definition findLink :: "packet \<Rightarrow> link list \<Rightarrow> link option" where
  "findLink p newLinks =
     find (\<lambda>l. (source l = sourceId p \<and> target l = targetId p)
              \<or> (target l = sourceId p \<and> source l = targetId p)) newLinks"

definition advancePacket :: "env \<Rightarrow> node list \<Rightarrow> link list \<Rightarrow> nat \<Rightarrow> packet \<Rightarrow> packet \<times> event" where
  "advancePacket e currentNodes newLinks i p =
     (if delivered p \<or> lost p then (p, NoEvent)
      else
        (case find (\<lambda>n. nid n = sourceId p) currentNodes of
           None \<Rightarrow> (p\<lparr>lost := True\<rparr>, LostEvent)
         | Some src \<Rightarrow>
            (case find (\<lambda>n. nid n = targetId p) currentNodes of
               None \<Rightarrow> (p\<lparr>lost := True\<rparr>, LostEvent)
             | Some tgt \<Rightarrow>
                 (let lnk = findLink p newLinks in
                  if (case lnk of None \<Rightarrow> True | Some l \<Rightarrow> quality l \<le> 0.2)
                     \<and> rndLoss e i < 0.15
                  then (p\<lparr>lost := True\<rparr>, LostEvent)
                  else movement e i p src tgt))))"

definition advanceAll :: "env \<Rightarrow> node list \<Rightarrow> link list \<Rightarrow> packet list \<Rightarrow> (packet \<times> event) list" where
  "advanceAll e currentNodes newLinks currentPackets =
     map (\<lambda>(i, p). advancePacket e currentNodes newLinks i p) (enumerate 0 currentPackets)"

fun isLost :: "event \<Rightarrow> bool" where
  "isLost LostEvent = True"
| "isLost _ = False"

fun isDelivered :: "event \<Rightarrow> bool" where
  "isDelivered (DeliveredEvent _) = True"
| "isDelivered _ = False"

fun latencyOf :: "event \<Rightarrow> real list" where
  "latencyOf (DeliveredEvent t) = [t]"
| "latencyOf _ = []"

subsection \<open>6. Logging\<close>

definition makeLog ::
  "real \<Rightarrow> AttackType \<Rightarrow> nat \<Rightarrow> nat \<Rightarrow> nat \<Rightarrow> real list \<Rightarrow> real \<Rightarrow> bool \<Rightarrow> real \<Rightarrow> real
     \<Rightarrow> SimulationLog" where
  "makeLog ts kind sent deliveredCnt lostCnt lats accEnergy jammingActive avgLinkQ jammingPower =
     (let pdrV = (if sent = 0 then 1 else real deliveredCnt / (real sent + 0.0001));
          plrV = (if sent = 0 then 0 else real lostCnt / (real sent + 0.0001));
          throughputV = real deliveredCnt * (1000 / LOG_INTERVAL);
          avgLatency = (if length lats > 0
                        then foldl (+) 0 lats / real (length lats) else 0)
      in \<lparr>timestamp = ts, attackKind = kind,
          pdr = toFixed 3 pdrV, plr = toFixed 3 plrV,
          throughput = toFixed 2 throughputV, latency = toFixed 2 avgLatency,
          energy = toFixed 2 (accEnergy + (if jammingActive then 15 else 2)),
          avgLinkQuality = toFixed 3 avgLinkQ,
          jammingIntensity = toFixed 2 jammingPower\<rparr>)"

definition pushLimited :: "SimulationLog list \<Rightarrow> SimulationLog \<Rightarrow> SimulationLog list" where
  "pushLimited logs newLog =
     (let updatedLogs = logs @ [newLog]
      in if length updatedLogs > 50 then tl updatedLogs else updatedLogs)"

definition logStep :: "env \<Rightarrow> bool \<Rightarrow> real \<Rightarrow> real \<Rightarrow> sim \<Rightarrow> sim" where
  "logStep e jammingActive jammingPower avgLinkQ s =
     (if now e - lastLogTimeRef s > LOG_INTERVAL then
        (let newLog = makeLog (now e) (attackType s) (packetsSentRef s)
                        (packetsDeliveredRef s) (packetsLostRef s) (latencyAccumulatorRef s)
                        (accumulatedEnergyRef s) jammingActive avgLinkQ jammingPower
         in s\<lparr>logsRef := pushLimited (logsRef s) newLog,
              fullDatasetRef := fullDatasetRef s @ [newLog],
              lastLogTimeRef := now e,
              packetsSentRef := 0, packetsDeliveredRef := 0, packetsLostRef := 0,
              latencyAccumulatorRef := []\<rparr>)
      else s)"

subsection \<open>The tick\<close>

text \<open>The values \<open>updateSimulation\<close> computes before it touches the packets, under the
  names of its local variables. The jammer is looked up in the node list as it is before
  the nodes move, and that node object is what the reactive detection and the
  interference read.\<close>

definition attackResult :: "env \<Rightarrow> sim \<Rightarrow> bool \<times> real \<times> node list \<times> randomAttackState" where
  "attackResult e s =
     determineAttack e s (find isJammer (nodesRef s)) (map moveNode (nodesRef s)) (packetsRef s)"

definition jammingActive :: "env \<Rightarrow> sim \<Rightarrow> bool" where
  "jammingActive e s = fst (attackResult e s)"

definition jammingPower :: "env \<Rightarrow> sim \<Rightarrow> real" where
  "jammingPower e s = fst (snd (attackResult e s))"

definition currentNodes :: "env \<Rightarrow> sim \<Rightarrow> node list" where
  "currentNodes e s = fst (snd (snd (attackResult e s)))"

definition newLinks :: "env \<Rightarrow> sim \<Rightarrow> link list" where
  "newLinks e s =
     computeLinks (jammingActive e s) (jammingPower e s) (find isJammer (nodesRef s))
       (attackType s) (currentNodes e s)"

text \<open>Steps 4 and 5: the new packet, if any, joins the list; every packet is advanced;
  the counters and the latency samples take the events; the terminal packets are dropped.\<close>

definition traffic :: "env \<Rightarrow> node list \<Rightarrow> link list \<Rightarrow> sim \<Rightarrow> error + sim" where
  "traffic e ns ls s =
     (case generatePacket e ns ls of
        Inl err \<Rightarrow> Inl err
      | Inr gen \<Rightarrow>
         (let currentPackets = packetsRef s @ (case gen of None \<Rightarrow> [] | Some p \<Rightarrow> [p]);
              results = advanceAll e ns ls currentPackets
          in Inr (s\<lparr>packetsRef := filter (\<lambda>p. \<not> delivered p \<and> \<not> lost p) (map fst results),
                     packetsSentRef :=
                       packetsSentRef s + (case gen of None \<Rightarrow> 0 | Some p \<Rightarrow> 1),
                     packetsDeliveredRef :=
                       packetsDeliveredRef s + length (filter isDelivered (map snd results)),
                     packetsLostRef :=
                       packetsLostRef s + length (filter isLost (map snd results)),
                     latencyAccumulatorRef :=
                       latencyAccumulatorRef s @ concat (map (\<lambda>r. latencyOf (snd r)) results)\<rparr>)))"

text \<open>\<open>updateSimulation\<close>, in the order of the source. When the packet generation throws,
  the tick ends there and no next frame is requested.\<close>

definition updateSimulation :: "env \<Rightarrow> sim \<Rightarrow> error + sim" where
  "updateSimulation e s =
     (if \<not> isRunning s then Inr s
      else
        (case traffic e (currentNodes e s) (newLinks e s) s of
           Inl err \<Rightarrow> Inl err
         | Inr s1 \<Rightarrow>
             Inr ((logStep e (jammingActive e s) (jammingPower e s) (avgQuality (newLinks e s))
                     (s1\<lparr>randomAttackStateRef := snd (snd (snd (attackResult e s)))\<rparr>))
                  \<lparr>nodesRef := currentNodes e s, links := newLinks e s,
                   frameRef := rafHandle e\<rparr>)))"

fun run :: "env list \<Rightarrow> sim \<Rightarrow> error + sim" where
  "run [] s = Inr s"
| "run (e # es) s =
     (case updateSimulation e s of Inl err \<Rightarrow> Inl err | Inr s' \<Rightarrow> run es s')"

subsection \<open>Handlers\<close>

text \<open>The attack buttons call \<open>setAttackType\<close>. A new kind re-creates the
  \<open>updateSimulation\<close> closure, and the effect that depends on it cancels the pending frame
  and, when running, requests a new one (handle \<open>h\<close>). Nothing else is written.\<close>

definition setAttackType :: "AttackType \<Rightarrow> nat \<Rightarrow> sim \<Rightarrow> sim" where
  "setAttackType k h s =
     (if k = attackType s then s
      else s\<lparr>attackType := k, frameRef := (if isRunning s then h else frameRef s)\<rparr>)"

definition toggleSimulation :: "nat \<Rightarrow> sim \<Rightarrow> sim" where
  "toggleSimulation h s =
     s\<lparr>isRunning := \<not> isRunning s, frameRef := (if \<not> isRunning s then h else frameRef s)\<rparr>"

definition resetData :: "sim \<Rightarrow> sim" where
  "resetData s = s\<lparr>fullDatasetRef := [], logsRef := []\<rparr>"

section \<open>Predicates and inputs used by the properties\<close>

subsection \<open>Arena bounds\<close>

definition insideArena :: "node \<Rightarrow> bool" where
  "insideArena n = (0 \<le> nx n \<and> nx n \<le> WIDTH \<and> 0 \<le> ny n \<and> ny n \<le> HEIGHT)"

text \<open>The speed range of \<open>initializeNodes\<close>: each component is \<open>(Math.random() - 0.5) * 0.5\<close>.\<close>

definition slow :: "node \<Rightarrow> bool" where
  "slow n = (\<bar>vx n\<bar> \<le> 1/4 \<and> \<bar>vy n\<bar> \<le> 1/4)"

definition nearArena :: "node \<Rightarrow> bool" where
  "nearArena n =
     (- (1/4) \<le> nx n \<and> nx n \<le> WIDTH + 1/4 \<and> - (1/4) \<le> ny n \<and> ny n \<le> HEIGHT + 1/4)"

text \<open>What the bounce keeps true of a node: a node that is outside the arena is less than
  one step outside and is heading back.\<close>

definition bounceInv :: "node \<Rightarrow> bool" where
  "bounceInv n =
     (\<bar>vx n\<bar> \<le> 1/4 \<and> \<bar>vy n\<bar> \<le> 1/4
      \<and> (nx n < 0 \<longrightarrow> 0 < vx n \<and> - vx n \<le> nx n)
      \<and> (WIDTH < nx n \<longrightarrow> vx n < 0 \<and> nx n \<le> WIDTH - vx n)
      \<and> (ny n < 0 \<longrightarrow> 0 < vy n \<and> - vy n \<le> ny n)
      \<and> (HEIGHT < ny n \<longrightarrow> vy n < 0 \<and> ny n \<le> HEIGHT - vy n))"

definition sameMotion :: "node \<Rightarrow> node \<Rightarrow> bool" where
  "sameMotion n m =
     (nid m = nid n \<and> nx m = nx n \<and> ny m = ny n \<and> vx m = vx n \<and> vy m = vy n
      \<and> isJammer m = isJammer n)"

subsection \<open>Concrete inputs\<close>

text \<open>A tick in which no packet is generated (the draw is not below 0.15).\<close>

definition quietEnv :: "real \<Rightarrow> nat \<Rightarrow> env" where
  "quietEnv t h =
     \<lparr>now = t, rndSwitchActive = 0, rndSwitchDuration = 0, rndGen = 1/2,
      rndSource = 0, rndTarget = 0, rndId = ''a'', rndLoss = (\<lambda>i. 1/2),
      nowDelivered = (\<lambda>i. t), rafHandle = h\<rparr>"

text \<open>Creation draws that put node 0 at \<open>x = 0.125\<close> with \<open>vx = -0.25\<close>, and every other
  node at rest in the middle of the arena.\<close>

definition drawsWall :: "nat \<Rightarrow> real \<times> real \<times> real \<times> real" where
  "drawsWall i = (if i = 0 then (1/6400, 1/2, 0, 1/2) else (1/2, 1/2, 1/2, 1/2))"

definition simWall :: sim where
  "simWall = toggleSimulation 1 (initialSim drawsWall)"

subsection \<open>The intelligent attack\<close>

text \<open>The target in the spec's words. Two nodes are within communication range when the
  straight line between their positions is shorter than 120; the neighbours of a node are
  the other nodes (by id) of the list within range of it; the target is, among the
  non-jammer nodes, the first one whose number of neighbours no other non-jammer node
  exceeds.\<close>

definition withinRange :: "node \<Rightarrow> node \<Rightarrow> bool" where
  "withinRange a b = (sqrt ((nx a - nx b)\<^sup>2 + (ny a - ny b)\<^sup>2) < 120)"

definition neighbours :: "node list \<Rightarrow> node \<Rightarrow> nat" where
  "neighbours ns n = length (filter (\<lambda>m. nid m \<noteq> nid n \<and> withinRange n m) ns)"

definition mostConnected :: "node list \<Rightarrow> node option" where
  "mostConnected ns =
     (let cands = filter (\<lambda>n. \<not> isJammer n) ns
      in find (\<lambda>n. list_all (\<lambda>m. neighbours ns m \<le> neighbours ns n) cands) cands)"

definition exactlyOneTarget :: "node list \<Rightarrow> bool" where
  "exactlyOneTarget ns =
     (length (filter isTarget ns) = 1 \<and> list_all (\<lambda>n. isTarget n \<longrightarrow> \<not> isJammer n) ns)"

text \<open>The browser hands out animation-frame handles by counting up; when the simulation
  loop is the only requester, each tick's request returns the previous handle plus one.\<close>

fun consecutiveHandles :: "nat \<Rightarrow> env list \<Rightarrow> bool" where
  "consecutiveHandles h [] = True"
| "consecutiveHandles h (e # es) = (rafHandle e = Suc h \<and> consecutiveHandles (Suc h) es)"

text \<open>What \<open>initializeNodes\<close> establishes and no tick changes: distinct ids, a jammer, and
  a node that is not the jammer.\<close>

definition wfNodes :: "node list \<Rightarrow> bool" where
  "wfNodes ns =
     (distinct (map nid ns) \<and> list_ex isJammer ns \<and> list_ex (\<lambda>n. \<not> isJammer n) ns)"

text \<open>\<open>k\<close> ticks from time \<open>t\<close>, 16 apart, none of which generates a packet, with
  the frame handles counted up from \<open>h + 1\<close>.\<close>

fun quietRun :: "real \<Rightarrow> nat \<Rightarrow> nat \<Rightarrow> env list" where
  "quietRun t h 0 = []"
| "quietRun t h (Suc k) = quietEnv t (Suc h) # quietRun (t + 16) (Suc h) k"

text \<open>Creation draws with every node at rest: the jammer (node 0) at (400, 260), node 1
  at (290, 250), node 2 at (400, 250) and the other 37 nodes at (410, 250). Node 1 is
  within range of the jammer and of node 2 only (it is exactly 120 from the others);
  node 2 is within range of every other node.\<close>

definition drawsHub :: "nat \<Rightarrow> real \<times> real \<times> real \<times> real" where
  "drawsHub i =
     (if i = 0 then (1/2, 13/25, 1/2, 1/2)
      else if i = 1 then (29/80, 1/2, 1/2, 1/2)
      else if i = 2 then (1/2, 1/2, 1/2, 1/2)
      else (41/80, 1/2, 1/2, 1/2))"

definition nodesHub :: "node list" where
  "nodesHub = map (newNode drawsHub) [0..<40]"

text \<open>That network, started, with the Intelligent kind selected before the first tick:
  the first frame was requested under handle 1 and the switch requested handle 2.\<close>

definition simHub :: sim where
  "simHub = setAttackType INTELLIGENT 2 (toggleSimulation 1 (initialSim drawsHub))"

subsection \<open>Switching the attack kind\<close>

text \<open>The kind-specific controller state as it is at creation: the Random timer pair at its
  initial value and no node flagged as target.\<close>

definition controllerReset :: "sim \<Rightarrow> bool" where
  "controllerReset s =
     (randomAttackStateRef s = \<lparr>isActive = False, nextSwitch = 0\<rparr>
      \<and> list_all (\<lambda>n. \<not> isTarget n) (nodesRef s))"

text \<open>A tick at time 1000 whose Random draws give \<open>active\<close> and a hold of 1250.\<close>

definition randEnv :: env where
  "randEnv = (quietEnv 1000 3)\<lparr>rndSwitchActive := 3/4, rndSwitchDuration := 1/2\<rparr>"


subsection \<open>Links in the spec's words\<close>

text \<open>Every unordered pair of nodes, by position in the node list, whose distance is below
  the communication range.\<close>

definition pairsInRange :: "node list \<Rightarrow> (node \<times> node) list" where
  "pairsInRange ns =
     concat (map (\<lambda>i. map (\<lambda>j. (ns ! i, ns ! j))
                        (filter (\<lambda>j. dist_nodes (ns ! i) (ns ! j) < 120) [Suc i..<length ns]))
                 [0..<length ns])"

text \<open>The quality of a link as the spec words it, with the jammer node as a parameter:
  \<open>1 - distance/R\<close>, minus (when jamming is active)
  \<open>max(0, 1 - d_j/footprint) * power * multiplier\<close>, clamped to \<open>[0, 1]\<close>.\<close>

definition claimedQuality :: "bool \<Rightarrow> real \<Rightarrow> node option \<Rightarrow> AttackType \<Rightarrow> node \<Rightarrow> node \<Rightarrow> real" where
  "claimedQuality active pw jammerNode kind n1 n2 =
     (let base = 1 - dist_nodes n1 n2 / 120;
          jam = (case jammerNode of
                   None \<Rightarrow> 0
                 | Some j \<Rightarrow>
                     if active then
                       max 0 (1 - min (dist_nodes n1 j) (dist_nodes n2 j)
                                    / (if kind = SWEEP then 150 else 120))
                       * pw
                       * (if kind = INTELLIGENT \<and> (isTarget n1 \<or> isTarget n2) then 3 else 2)
                     else 0)
      in max 0 (min 1 (base - jam)))"

definition linksFor :: "bool \<Rightarrow> real \<Rightarrow> node option \<Rightarrow> AttackType \<Rightarrow> node list \<Rightarrow> link list" where
  "linksFor active pw jammerNode kind ns =
     map (\<lambda>(n1, n2). \<lparr>source = nid n1, target = nid n2,
                       quality = claimedQuality active pw jammerNode kind n1 n2\<rparr>)
         (pairsInRange ns)"

text \<open>The links of a tick when \<open>d_j\<close> is measured to the jammer where it is in the
  node list the links are computed from.\<close>

definition claimedLinks :: "bool \<Rightarrow> real \<Rightarrow> AttackType \<Rightarrow> node list \<Rightarrow> link list" where
  "claimedLinks active pw kind ns = linksFor active pw (find isJammer ns) kind ns"

text \<open>Creation draws for the interference example: the jammer (node 0) at (100, 100)
  moving up by 0.25 per tick, node 2 at (100, 190) and node 3 at (100, 220) at rest, and
  every other node at rest at (700, 400).\<close>

definition drawsJam :: "nat \<Rightarrow> real \<times> real \<times> real \<times> real" where
  "drawsJam i =
     (if i = 0 then (1/8, 1/5, 1/2, 0)
      else if i = 2 then (1/8, 19/50, 1/2, 1/2)
      else if i = 3 then (1/8, 11/25, 1/2, 1/2)
      else (7/8, 4/5, 1/2, 1/2))"

definition simJam :: sim where
  "simJam = setAttackType CONSTANT 2 (toggleSimulation 1 (initialSim drawsJam))"

text \<open>The arithmetic mean, 0 for no values.\<close>

definition mean :: "real list \<Rightarrow> real" where
  "mean xs = (if xs = [] then 0 else sum_list xs / real (length xs))"


subsection \<open>Packets\<close>

text \<open>A packet as the packet list holds it between ticks: not terminal, at a finite
  position, with a finite progress in \<open>[0, 1)\<close>.\<close>

definition inFlight :: "packet \<Rightarrow> bool" where
  "inFlight p =
     (\<not> delivered p \<and> \<not> lost p \<and> isFinite (px p) \<and> isFinite (py p)
      \<and> (case progress p of Fin a \<Rightarrow> 0 \<le> a \<and> a < 1 | _ \<Rightarrow> False))"

text \<open>The condition under which the loss draw is made: no link between the packet's
  endpoints, or one of quality at most 0.2.\<close>

definition weakLink :: "packet \<Rightarrow> link list \<Rightarrow> bool" where
  "weakLink p ls = (case findLink p ls of None \<Rightarrow> True | Some l \<Rightarrow> quality l \<le> 0.2)"

definition nonTerminal :: "packet \<Rightarrow> bool" where
  "nonTerminal p = (\<not> delivered p \<and> \<not> lost p)"


subsection \<open>A network for the packet examples\<close>

text \<open>Creation draws with every node at rest: the jammer (node 0) at (100, 100); nodes 2
  and 3 both at (100, 169); node 4 at (100, 400) and node 5 at (103, 404), five apart; the
  other 35 nodes on a grid from (240, 20) with 120 between columns and 60 between rows,
  all more than 120 away from nodes 0 and 2 to 5.\<close>

definition drawsNet :: "nat \<Rightarrow> real \<times> real \<times> real \<times> real" where
  "drawsNet i =
     (if i = 0 then (1/8, 1/5, 1/2, 1/2)
      else if i = 2 \<or> i = 3 then (1/8, 169/500, 1/2, 1/2)
      else if i = 4 then (1/8, 4/5, 1/2, 1/2)
      else if i = 5 then (103/800, 101/125, 1/2, 1/2)
      else (let k = (if i = 1 then 0 else i - 5)
            in (real (240 + 120 * (k mod 5)) / 800, real (20 + 60 * (k div 5)) / 500, 1/2, 1/2)))"

definition nodesNet :: "node list" where
  "nodesNet = map (newNode drawsNet) [0..<40]"

text \<open>The links of that network under Constant jamming and without jamming.\<close>

definition linksConstant :: "link list" where
  "linksConstant = computeLinks True 1 (Some (newNode drawsNet 0)) CONSTANT nodesNet"

definition linksNone :: "link list" where
  "linksNone = computeLinks False 0 (Some (newNode drawsNet 0)) NONE nodesNet"

definition simNet :: sim where
  "simNet = toggleSimulation 1 (initialSim drawsNet)"

definition simConstant :: sim where
  "simConstant = setAttackType CONSTANT 2 simNet"

text \<open>A tick at time \<open>t\<close> that generates a packet: \<open>rs\<close> is the draw for the source,
  \<open>rl\<close> the loss draw of every packet; the first neighbour is the destination.\<close>

definition sendEnv :: "real \<Rightarrow> nat \<Rightarrow> real \<Rightarrow> real \<Rightarrow> env" where
  "sendEnv t h rs rl =
     \<lparr>now = t, rndSwitchActive = 0, rndSwitchDuration = 0, rndGen = 0,
      rndSource = rs, rndTarget = 0, rndId = ''p'', rndLoss = (\<lambda>i. rl),
      nowDelivered = (\<lambda>i. t), rafHandle = h\<rparr>"

text \<open>A non-terminal packet from node \<open>a\<close> to node \<open>b\<close> at \<open>(x, y)\<close> with progress
  \<open>g\<close>, created at \<open>t\<close>.\<close>

definition pkt :: "nat \<Rightarrow> nat \<Rightarrow> real \<Rightarrow> real \<Rightarrow> real \<Rightarrow> real \<Rightarrow> packet" where
  "pkt a b x y g t =
     \<lparr>pid = ''p'', sourceId = a, targetId = b, px = Fin x, py = Fin y, progress = Fin g,
      delivered = False, lost = False, createdAt = t\<rparr>"

text \<open>What the examples track of a state over the network: kind, packets, the window's
  counters and the time of the last record.\<close>

definition netState ::
  "sim \<Rightarrow> AttackType \<Rightarrow> packet list \<Rightarrow> nat \<Rightarrow> nat \<Rightarrow> nat \<Rightarrow> real \<Rightarrow> bool" where
  "netState s k ps sent dlv lst lastLog =
     (isRunning s \<and> attackType s = k \<and> nodesRef s = nodesNet \<and> packetsRef s = ps
      \<and> packetsSentRef s = sent \<and> packetsDeliveredRef s = dlv \<and> packetsLostRef s = lst
      \<and> lastLogTimeRef s = lastLog)"


subsection \<open>A network for the reactive example\<close>






section \<open>Properties\<close>

lemma upt40: "[0..<40] = [0,1,2,3,4,5,6,7,8,9,10,11,12,13,14,15,16,17,18,19,20,21,22,23,24,25,26,27,28,29,30,31,32,33,34,35,36,37,38,39]"
  by code_simp

subsection \<open>What a tick writes\<close>

lemma traffic_frame:
  assumes "traffic e ns ls s = Inr s1"
  shows "nodesRef s1 = nodesRef s" "links s1 = links s" "logsRef s1 = logsRef s"
    "fullDatasetRef s1 = fullDatasetRef s" "frameRef s1 = frameRef s"
    "lastLogTimeRef s1 = lastLogTimeRef s" "accumulatedEnergyRef s1 = accumulatedEnergyRef s"
    "randomAttackStateRef s1 = randomAttackStateRef s" "isRunning s1 = isRunning s"
    "attackType s1 = attackType s"
  using assms by (auto simp: traffic_def Let_def split: sum.splits)

lemma logStep_frame:
  "nodesRef (logStep e a p q s) = nodesRef s" "packetsRef (logStep e a p q s) = packetsRef s"
  "links (logStep e a p q s) = links s" "frameRef (logStep e a p q s) = frameRef s"
  "accumulatedEnergyRef (logStep e a p q s) = accumulatedEnergyRef s"
  "randomAttackStateRef (logStep e a p q s) = randomAttackStateRef s"
  "isRunning (logStep e a p q s) = isRunning s" "attackType (logStep e a p q s) = attackType s"
  by (simp_all add: logStep_def Let_def)

lemma tick_cases:
  assumes "updateSimulation e s = Inr s'" "isRunning s"
  obtains s1 where "traffic e (currentNodes e s) (newLinks e s) s = Inr s1"
    and "s' = (logStep e (jammingActive e s) (jammingPower e s) (avgQuality (newLinks e s))
                 (s1\<lparr>randomAttackStateRef := snd (snd (snd (attackResult e s)))\<rparr>))
              \<lparr>nodesRef := currentNodes e s, links := newLinks e s, frameRef := rafHandle e\<rparr>"
  using assms by (auto simp: updateSimulation_def split: sum.splits)

lemma tick_frame:
  assumes "updateSimulation e s = Inr s'" "isRunning s"
  shows "nodesRef s' = currentNodes e s" "links s' = newLinks e s" "frameRef s' = rafHandle e"
    "accumulatedEnergyRef s' = accumulatedEnergyRef s" "isRunning s'"
    "attackType s' = attackType s"
    "randomAttackStateRef s' = snd (snd (snd (attackResult e s)))"
proof -
  obtain s1 where t: "traffic e (currentNodes e s) (newLinks e s) s = Inr s1"
    and s': "s' = (logStep e (jammingActive e s) (jammingPower e s) (avgQuality (newLinks e s))
                 (s1\<lparr>randomAttackStateRef := snd (snd (snd (attackResult e s)))\<rparr>))
              \<lparr>nodesRef := currentNodes e s, links := newLinks e s, frameRef := rafHandle e\<rparr>"
    using assms by (rule tick_cases)
  note f = traffic_frame[OF t]
  show "nodesRef s' = currentNodes e s" "links s' = newLinks e s" "frameRef s' = rafHandle e"
    by (simp_all add: s')
  show "accumulatedEnergyRef s' = accumulatedEnergyRef s" "isRunning s'"
    "attackType s' = attackType s"
    "randomAttackStateRef s' = snd (snd (snd (attackResult e s)))"
    using assms(2) by (simp_all add: s' logStep_frame f)
qed

lemma tick_idle: "\<not> isRunning s \<Longrightarrow> updateSimulation e s = Inr s"
  by (simp add: updateSimulation_def)

text \<open>A tick that generates no packet cannot throw.\<close>

lemma generate_quiet: "\<not> rndGen e < 0.15 \<Longrightarrow> generatePacket e ns ls = Inr None"
  by (simp add: generatePacket_def)

lemma traffic_quiet: "\<not> rndGen e < 0.15 \<Longrightarrow> \<exists>s1. traffic e ns ls s = Inr s1"
  by (simp add: traffic_def generate_quiet Let_def)

lemma tick_quiet: "\<not> rndGen e < 0.15 \<Longrightarrow> \<exists>s'. updateSimulation e s = Inr s'"
  using traffic_quiet[of e "currentNodes e s" "newLinks e s" s]
  by (auto simp: updateSimulation_def)

lemma quietEnv_simps:
  "now (quietEnv t h) = t" "rndGen (quietEnv t h) = 1/2" "rafHandle (quietEnv t h) = h"
  by (simp_all add: quietEnv_def)

subsection \<open>Node motion\<close>

lemma moveNode_inv: "bounceInv n \<Longrightarrow> bounceInv (moveNode n)"
  unfolding bounceInv_def moveNode_def WIDTH_def HEIGHT_def Let_def
  by (simp; linarith)

lemma markTarget_motion: "list_all2 sameMotion ns (markTarget t ns)"
  by (simp add: markTarget_def list_all2_map2 sameMotion_def list.rel_refl)

lemma clearTargets_motion: "list_all2 sameMotion ns (clearTargets ns)"
  by (simp add: clearTargets_def list_all2_map2 sameMotion_def list.rel_refl)

lemma sameMotion_refl: "list_all2 sameMotion ns ns"
  by (simp add: sameMotion_def list.rel_refl)

lemma determineAttack_motion:
  "list_all2 sameMotion ns (fst (snd (snd (determineAttack e s j ns ps))))"
  by (simp add: determineAttack_def Let_def markTarget_motion clearTargets_motion sameMotion_refl
      split: option.splits AttackType.splits)

lemma currentNodes_motion: "list_all2 sameMotion (map moveNode (nodesRef s)) (currentNodes e s)"
  by (simp add: currentNodes_def attackResult_def determineAttack_motion)

lemma sameMotion_inv: "sameMotion n m \<Longrightarrow> bounceInv n \<Longrightarrow> bounceInv m"
  by (simp add: sameMotion_def bounceInv_def)

lemma list_all2_carry:
  "list_all2 R xs ys \<Longrightarrow> list_all P xs \<Longrightarrow> (\<And>x y. R x y \<Longrightarrow> P x \<Longrightarrow> Q y) \<Longrightarrow> list_all Q ys"
  by (induction rule: list_all2_induct) auto

lemma tick_inv:
  assumes "updateSimulation e s = Inr s'" "list_all bounceInv (nodesRef s)"
  shows "list_all bounceInv (nodesRef s')"
proof (cases "isRunning s")
  case False
  with assms show ?thesis by (simp add: tick_idle)
next
  case True
  have m: "list_all2 sameMotion (map moveNode (nodesRef s)) (nodesRef s')"
    using tick_frame(1)[OF assms(1) True] currentNodes_motion[of s e] by simp
  have "list_all bounceInv (map moveNode (nodesRef s))"
    using assms(2) by (simp add: list_all_iff moveNode_inv)
  with m show ?thesis
    by (rule list_all2_carry) (rule sameMotion_inv)
qed

lemma run_inv:
  "run es s = Inr s' \<Longrightarrow> list_all bounceInv (nodesRef s) \<Longrightarrow> list_all bounceInv (nodesRef s')"
proof (induction es arbitrary: s)
  case Nil
  then show ?case by simp
next
  case (Cons e es)
  then show ?case by (auto split: sum.splits dest: tick_inv)
qed

lemma start_inv: "insideArena n \<Longrightarrow> slow n \<Longrightarrow> bounceInv n"
  by (simp add: insideArena_def slow_def bounceInv_def)

lemma inv_near: "bounceInv n \<Longrightarrow> nearArena n"
  unfolding bounceInv_def nearArena_def by (simp; linarith)

lemma simWall_facts:
  "isRunning simWall" "nodesRef simWall = map (newNode drawsWall) [0..<40]"
  by (simp_all add: simWall_def toggleSimulation_def initialSim_def initializeNodes_def
      NODE_COUNT_def)

lemma simWall_start:
  "list_all insideArena (nodesRef simWall)" "list_all slow (nodesRef simWall)"
  by (simp_all add: simWall_facts list_all_iff newNode_def drawsWall_def insideArena_def
      slow_def WIDTH_def HEIGHT_def)

text \<open>
  Claim C4, as stated: for every tick every node stays within
  \<open>[0, width] \<times> [0, height]\<close>, given that all nodes start inside. It fails on the first
  tick of a run that \<open>initializeNodes\<close> can produce: node 0 is created at \<open>x = 0.125\<close>
  with \<open>vx = -0.25\<close>; the tick moves it to \<open>x = -0.125\<close> and only then negates the
  velocity. The position is never clamped.
\<close>

theorem nodes_leave_arena:
  "list_all insideArena (nodesRef simWall)
   \<and> (case updateSimulation (quietEnv 1000 2) simWall of
        Inl err \<Rightarrow> False
      | Inr s' \<Rightarrow> \<not> list_all insideArena (nodesRef s') \<and> nx (hd (nodesRef s')) = - (1/8))"
proof -
  obtain s' where t: "updateSimulation (quietEnv 1000 2) simWall = Inr s'"
    using tick_quiet[of "quietEnv 1000 2" simWall] by (auto simp: quietEnv_simps)
  have m: "list_all2 sameMotion (map moveNode (nodesRef simWall)) (nodesRef s')"
    using tick_frame(1)[OF t simWall_facts(1)] currentNodes_motion[of simWall "quietEnv 1000 2"]
    by simp
  have u: "[0..<40] = 0 # [1..<40]"
    by (simp add: upt_conv_Cons)
  from m obtain n ns where s': "nodesRef s' = n # ns"
    and n: "sameMotion (moveNode (newNode drawsWall 0)) n"
    by (auto simp: simWall_facts u list_all2_Cons1)
  have "nx n = - (1/8)"
    using n by (simp add: sameMotion_def moveNode_def newNode_def drawsWall_def Let_def WIDTH_def)
  then show ?thesis
    using simWall_start(1) by (simp add: t s' insideArena_def)
qed

text \<open>
  Claim C4, amended: what the code keeps is the band one velocity step around the arena.
  Given that all nodes start inside the arena with velocity components of magnitude at
  most 0.25 (the range \<open>initializeNodes\<close> draws from), after any number of ticks every
  node's coordinates are within \<open>[-0.25, width + 0.25] \<times> [-0.25, height + 0.25]\<close>.
\<close>

theorem nodes_stay_near_arena:
  assumes "list_all insideArena (nodesRef s)" and "list_all slow (nodesRef s)"
    and "run es s = Inr s'"
  shows "list_all nearArena (nodesRef s')"
proof -
  have "list_all bounceInv (nodesRef s)"
    using assms(1,2) by (auto simp: list_all_iff start_inv)
  then have "list_all bounceInv (nodesRef s')"
    using assms(3) run_inv by blast
  then show ?thesis by (auto simp: list_all_iff inv_near)
qed

theorem nodes_stay_near_arena_witness:
  "list_all insideArena (nodesRef simWall) \<and> list_all slow (nodesRef simWall)
   \<and> (case run [quietEnv 1000 2, quietEnv 1016 3] simWall of
        Inl err \<Rightarrow> False
      | Inr s' \<Rightarrow> list_all nearArena (nodesRef s'))"
proof -
  obtain s1 where t1: "updateSimulation (quietEnv 1000 2) simWall = Inr s1"
    using tick_quiet[of "quietEnv 1000 2" simWall] by (auto simp: quietEnv_simps)
  obtain s2 where t2: "updateSimulation (quietEnv 1016 3) s1 = Inr s2"
    using tick_quiet[of "quietEnv 1016 3" s1] by (auto simp: quietEnv_simps)
  have r: "run [quietEnv 1000 2, quietEnv 1016 3] simWall = Inr s2"
    by (simp add: t1 t2)
  show ?thesis
    unfolding r using nodes_stay_near_arena[OF simWall_start r] simWall_start by simp
qed

subsection \<open>Metrics: the energy field\<close>

lemma none_inactive:
  "attackType s = NONE \<Longrightarrow> jammingActive e s = False"
  "attackType s = NONE \<Longrightarrow> jammingPower e s = 0"
  by (simp_all add: jammingActive_def jammingPower_def attackResult_def determineAttack_def
      split: option.splits)

lemma logStep_emit:
  assumes "now e - lastLogTimeRef s > LOG_INTERVAL"
  shows "fullDatasetRef (logStep e a p q s) =
           fullDatasetRef s @ [makeLog (now e) (attackType s) (packetsSentRef s)
              (packetsDeliveredRef s) (packetsLostRef s) (latencyAccumulatorRef s)
              (accumulatedEnergyRef s) a q p]"
    "packetsSentRef (logStep e a p q s) = 0" "packetsDeliveredRef (logStep e a p q s) = 0"
    "packetsLostRef (logStep e a p q s) = 0" "latencyAccumulatorRef (logStep e a p q s) = []"
    "lastLogTimeRef (logStep e a p q s) = now e"
  using assms by (simp_all add: logStep_def Let_def)

lemma logStep_skip:
  "\<not> now e - lastLogTimeRef s > LOG_INTERVAL \<Longrightarrow> logStep e a p q s = s"
  by (simp add: logStep_def)

lemma makeLog_energy:
  "energy (makeLog ts k sn dl ls lats acc a q p) = toFixed 2 (acc + (if a then 15 else 2))"
  by (simp add: makeLog_def Let_def)

lemma toFixed_pos: "0 \<le> v \<Longrightarrow> toFixed d v = of_int (round (v * 10 ^ d)) / 10 ^ d"
  by (simp add: toFixed_def)

lemma toFixed_2: "toFixed 2 2 = 2" "toFixed 2 15 = 15"
  by (simp_all add: toFixed_pos)

lemma tick_emit:
  assumes "updateSimulation e s = Inr s'" "isRunning s" "now e - lastLogTimeRef s > LOG_INTERVAL"
  shows "\<exists>r. fullDatasetRef s' = fullDatasetRef s @ [r]
            \<and> energy r = toFixed 2 (accumulatedEnergyRef s + (if jammingActive e s then 15 else 2))"
    "packetsSentRef s' = 0" "packetsDeliveredRef s' = 0" "packetsLostRef s' = 0"
    "latencyAccumulatorRef s' = []" "lastLogTimeRef s' = now e"
proof -
  obtain s1 where t: "traffic e (currentNodes e s) (newLinks e s) s = Inr s1"
    and s': "s' = (logStep e (jammingActive e s) (jammingPower e s) (avgQuality (newLinks e s))
                 (s1\<lparr>randomAttackStateRef := snd (snd (snd (attackResult e s)))\<rparr>))
              \<lparr>nodesRef := currentNodes e s, links := newLinks e s, frameRef := rafHandle e\<rparr>"
    using assms(1,2) by (rule tick_cases)
  note f = traffic_frame[OF t]
  let ?s1 = "s1\<lparr>randomAttackStateRef := snd (snd (snd (attackResult e s)))\<rparr>"
  have g: "now e - lastLogTimeRef ?s1 > LOG_INTERVAL"
    using assms(3) by (simp add: f)
  show "\<exists>r. fullDatasetRef s' = fullDatasetRef s @ [r]
            \<and> energy r = toFixed 2 (accumulatedEnergyRef s + (if jammingActive e s then 15 else 2))"
    by (simp add: s' logStep_emit(1)[OF g] makeLog_energy f)
  show "packetsSentRef s' = 0" "packetsDeliveredRef s' = 0" "packetsLostRef s' = 0"
    "latencyAccumulatorRef s' = []" "lastLogTimeRef s' = now e"
    by (simp_all add: s' logStep_emit[OF g])
qed

text \<open>
  Claim C1: the energy counter accrues 15 or 2 units on every tick, as a running total
  that the emitted records report. The code reads \<open>accumulatedEnergyRef\<close> when it builds a
  record and never writes it: the counter stays at 0 and every record carries the rate of
  its own tick. Evaluated on a run of two ticks without jamming, each of which emits a
  record: the claim gives 2 and then 4, the code gives 2 and 2.
\<close>

theorem energy_is_not_cumulative:
  "case run [quietEnv 1000 2, quietEnv 1600 3] simWall of
     Inl err \<Rightarrow> False
   | Inr s' \<Rightarrow> map energy (fullDatasetRef s') = [2, 2] \<and> accumulatedEnergyRef s' = 0"
proof -
  have s0: "isRunning simWall" "attackType simWall = NONE" "accumulatedEnergyRef simWall = 0"
    "lastLogTimeRef simWall = 0" "fullDatasetRef simWall = []"
    by (simp_all add: simWall_def toggleSimulation_def initialSim_def)
  obtain s1 where t1: "updateSimulation (quietEnv 1000 2) simWall = Inr s1"
    using tick_quiet[of "quietEnv 1000 2" simWall] by (auto simp: quietEnv_simps)
  have e1: "now (quietEnv 1000 2) - lastLogTimeRef simWall > LOG_INTERVAL"
    by (simp add: quietEnv_simps s0 LOG_INTERVAL_def)
  note f1 = tick_frame[OF t1 s0(1)]
  obtain r1 where r1: "fullDatasetRef s1 = [r1]" "energy r1 = 2"
    using tick_emit(1)[OF t1 s0(1) e1] by (auto simp: s0 none_inactive toFixed_2)
  have l1: "lastLogTimeRef s1 = 1000"
    using tick_emit(6)[OF t1 s0(1) e1] by (simp add: quietEnv_simps)
  have a1: "attackType s1 = NONE" "accumulatedEnergyRef s1 = 0" "isRunning s1"
    using f1 by (simp_all add: s0)
  obtain s2 where t2: "updateSimulation (quietEnv 1600 3) s1 = Inr s2"
    using tick_quiet[of "quietEnv 1600 3" s1] by (auto simp: quietEnv_simps)
  have e2: "now (quietEnv 1600 3) - lastLogTimeRef s1 > LOG_INTERVAL"
    by (simp add: quietEnv_simps l1 LOG_INTERVAL_def)
  obtain r2 where r2: "fullDatasetRef s2 = [r1, r2]" "energy r2 = 2"
    using tick_emit(1)[OF t2 a1(3) e2] by (auto simp: a1 r1 none_inactive toFixed_2)
  have a2: "accumulatedEnergyRef s2 = 0"
    using tick_frame(4)[OF t2 a1(3)] by (simp add: a1)
  have r: "run [quietEnv 1000 2, quietEnv 1600 3] simWall = Inr s2"
    by (simp add: t1 t2)
  show ?thesis unfolding r by (simp add: r1 r2 a2)
qed

subsection \<open>The reactive attack\<close>

lemma find_jammer_init: "find isJammer (initializeNodes r) = Some (newNode r 0)"
proof -
  have "[0..<NODE_COUNT] = 0 # [1..<NODE_COUNT]"
    by (simp add: NODE_COUNT_def upt_conv_Cons)
  then show ?thesis
    by (simp add: initializeNodes_def newNode_def split: prod.splits)
qed

text \<open>The decision of the reactive attack as the code takes it: \<open>j\<close> is the jammer node
  of the list the tick starts from, and the packets are those the tick starts from.\<close>

lemma reactive_decision:
  assumes "attackType s = REACTIVE" and "find isJammer (nodesRef s) = Some j"
  shows "jammingActive e s
           = list_ex (\<lambda>p. \<not> delivered p \<and> \<not> lost p \<and> jlt (dist_packet_node p j) (Fin 100))
               (packetsRef s)"
    "jammingPower e s = (if jammingActive e s then 1 else 0)"
    "snd (snd (snd (attackResult e s))) = randomAttackStateRef s"
    "currentNodes e s = map moveNode (nodesRef s)"
  using assms
  by (simp_all add: jammingActive_def jammingPower_def currentNodes_def attackResult_def
      determineAttack_def Let_def)

subsection \<open>The intelligent attack\<close>

lemma neighborCount_nonneg: "0 \<le> neighborCount A n"
  by (simp add: neighborCount_def)

lemma select_inv:
  "(list_all isJammer xs \<longrightarrow> foldl (selectStep A) (- 1, None) xs = (- 1, None))
   \<and> (\<not> list_all isJammer xs \<longrightarrow>
        (\<exists>ys t zs. xs = ys @ t # zs \<and> \<not> isJammer t
           \<and> foldl (selectStep A) (- 1, None) xs = (neighborCount A t, Some t)
           \<and> (\<forall>n \<in> set ys. \<not> isJammer n \<longrightarrow> neighborCount A n < neighborCount A t)
           \<and> (\<forall>n \<in> set zs. \<not> isJammer n \<longrightarrow> neighborCount A n \<le> neighborCount A t)))"
proof (induction xs rule: rev_induct)
  case Nil
  show ?case by simp
next
  case (snoc x xs)
  let ?acc = "foldl (selectStep A) (- 1, None) xs"
  show ?case
  proof (cases "isJammer x")
    case True
    have jx: "list_all isJammer (xs @ [x]) = list_all isJammer xs"
      using True by simp
    show ?thesis
    proof (cases "list_all isJammer xs")
      case all: True
      with snoc True show ?thesis by (simp add: selectStep_def)
    next
      case False
      with snoc obtain ys t zs where h: "xs = ys @ t # zs" "\<not> isJammer t"
        "?acc = (neighborCount A t, Some t)"
        "\<forall>n \<in> set ys. \<not> isJammer n \<longrightarrow> neighborCount A n < neighborCount A t"
        "\<forall>n \<in> set zs. \<not> isJammer n \<longrightarrow> neighborCount A n \<le> neighborCount A t"
        by blast
      have "xs @ [x] = ys @ t # (zs @ [x])" using h(1) by simp
      moreover have "foldl (selectStep A) (- 1, None) (xs @ [x]) = (neighborCount A t, Some t)"
        using True h(3) by (simp add: selectStep_def)
      moreover have "\<forall>n \<in> set (zs @ [x]). \<not> isJammer n \<longrightarrow> neighborCount A n \<le> neighborCount A t"
        using h(5) True by auto
      ultimately show ?thesis using h(2,4) False jx by blast
    qed
  next
    case nj: False
    have njx: "\<not> list_all isJammer (xs @ [x])" using nj by simp
    show ?thesis
    proof (cases "list_all isJammer xs")
      case True
      with snoc have acc: "?acc = (- 1, None)" by simp
      have "foldl (selectStep A) (- 1, None) (xs @ [x]) = (neighborCount A x, Some x)"
        using nj acc neighborCount_nonneg[of A x] by (simp add: selectStep_def)
      moreover have "\<forall>n \<in> set xs. \<not> isJammer n \<longrightarrow> neighborCount A n < neighborCount A x"
        using True by (simp add: list_all_iff)
      ultimately show ?thesis using nj njx by (intro conjI impI exI[of _ xs] exI[of _ x] exI[of _ "[]"]) auto
    next
      case False
      with snoc obtain ys t zs where h: "xs = ys @ t # zs" "\<not> isJammer t"
        "?acc = (neighborCount A t, Some t)"
        "\<forall>n \<in> set ys. \<not> isJammer n \<longrightarrow> neighborCount A n < neighborCount A t"
        "\<forall>n \<in> set zs. \<not> isJammer n \<longrightarrow> neighborCount A n \<le> neighborCount A t"
        by blast
      show ?thesis
      proof (cases "neighborCount A x > neighborCount A t")
        case True
        have "foldl (selectStep A) (- 1, None) (xs @ [x]) = (neighborCount A x, Some x)"
          using nj h(3) True by (simp add: selectStep_def)
        moreover have "\<forall>n \<in> set xs. \<not> isJammer n \<longrightarrow> neighborCount A n < neighborCount A x"
          using h True by auto
        ultimately show ?thesis using nj njx
          by (intro conjI impI exI[of _ xs] exI[of _ x] exI[of _ "[]"]) auto
      next
        case le: False
        have "xs @ [x] = ys @ t # (zs @ [x])" using h(1) by simp
        moreover have "foldl (selectStep A) (- 1, None) (xs @ [x]) = (neighborCount A t, Some t)"
          using nj h(3) le by (simp add: selectStep_def)
        moreover have "\<forall>n \<in> set (zs @ [x]). \<not> isJammer n \<longrightarrow> neighborCount A n \<le> neighborCount A t"
          using h(5) le by auto
        ultimately show ?thesis using h(2,4) njx by blast
      qed
    qed
  qed
qed

lemma find_first:
  assumes "\<forall>n \<in> set ys. \<not> P n" "P t"
  shows "find P (ys @ t # zs) = Some t"
  using assms by (induction ys) auto

lemma find_none_all: "\<forall>n \<in> set xs. \<not> P n \<Longrightarrow> find P xs = None"
  by (induction xs) auto

lemma neighborCount_spec: "neighborCount ns n = int (neighbours ns n)"
proof -
  have "filter (\<lambda>other. nid n \<noteq> nid other \<and> dist_nodes n other < MAX_RANGE) ns
        = filter (\<lambda>m. nid m \<noteq> nid n \<and> withinRange n m) ns"
    by (rule filter_cong) (auto simp: dist_nodes_def withinRange_def MAX_RANGE_def power2_commute)
  then show ?thesis by (simp add: neighborCount_def neighbours_def)
qed

lemma mostConnected_count:
  "mostConnected ns =
     find (\<lambda>n. list_all (\<lambda>m. neighborCount ns m \<le> neighborCount ns n)
                       (filter (\<lambda>n. \<not> isJammer n) ns))
          (filter (\<lambda>n. \<not> isJammer n) ns)"
  by (simp add: mostConnected_def Let_def neighborCount_spec)

lemma selectTarget_spec: "selectTarget ns = mostConnected ns"
proof (cases "list_all isJammer ns")
  case True
  then have "filter (\<lambda>n. \<not> isJammer n) ns = []"
    by (simp add: list_all_iff filter_empty_conv)
  with True select_inv[of ns ns] show ?thesis
    by (simp add: selectTarget_def mostConnected_count)
next
  case False
  with select_inv[of ns ns] obtain ys t zs where h: "ns = ys @ t # zs" "\<not> isJammer t"
    "foldl (selectStep ns) (- 1, None) ns = (neighborCount ns t, Some t)"
    "\<forall>n \<in> set ys. \<not> isJammer n \<longrightarrow> neighborCount ns n < neighborCount ns t"
    "\<forall>n \<in> set zs. \<not> isJammer n \<longrightarrow> neighborCount ns n \<le> neighborCount ns t"
    by blast
  let ?nj = "\<lambda>n. \<not> isJammer n"
  let ?c = "filter ?nj ns"
  let ?P = "\<lambda>n. list_all (\<lambda>m. neighborCount ns m \<le> neighborCount ns n) ?c"
  have c: "?c = filter ?nj ys @ t # filter ?nj zs"
    using h(2) by (subst h(1)) simp
  have tc: "t \<in> set ?c" by (subst c) simp
  have a: "\<forall>n \<in> set (filter ?nj ys). \<not> ?P n"
  proof
    fix n assume "n \<in> set (filter ?nj ys)"
    then have "neighborCount ns n < neighborCount ns t" using h(4) by simp
    then show "\<not> ?P n" using tc by (auto simp: list_all_iff)
  qed
  have b: "?P t"
  proof -
    have "\<forall>m \<in> set ?c. neighborCount ns m \<le> neighborCount ns t"
    proof
      fix m assume "m \<in> set ?c"
      then have "m \<in> set (filter ?nj ys) \<or> m = t \<or> m \<in> set (filter ?nj zs)"
        by (subst (asm) c) auto
      then show "neighborCount ns m \<le> neighborCount ns t"
        using h(4,5) by force
    qed
    then show ?thesis by (simp add: list_all_iff)
  qed
  have "find ?P (filter ?nj ys @ t # filter ?nj zs) = Some t"
    using a b by (rule find_first)
  then have "mostConnected ns = Some t"
    unfolding mostConnected_count using c by simp
  then show ?thesis by (simp add: selectTarget_def h(3))
qed

lemma mostConnected_Some:
  assumes "\<exists>n \<in> set ns. \<not> isJammer n"
  shows "\<exists>t. mostConnected ns = Some t \<and> t \<in> set ns \<and> \<not> isJammer t"
proof -
  have "\<not> list_all isJammer ns" using assms by (auto simp: list_all_iff)
  with select_inv[of ns ns] obtain ys t zs where h: "ns = ys @ t # zs" "\<not> isJammer t"
    "foldl (selectStep ns) (- 1, None) ns = (neighborCount ns t, Some t)"
    by blast
  have "selectTarget ns = Some t" by (simp add: selectTarget_def h(3))
  moreover have "t \<in> set ns" by (subst h(1)) simp
  ultimately show ?thesis using h(2) by (auto simp: selectTarget_spec)
qed

lemma one_with_id:
  "distinct (map f xs) \<Longrightarrow> x \<in> set xs \<Longrightarrow> length (filter (\<lambda>y. f y = f x) xs) = 1"
proof (induction xs)
  case Nil
  then show ?case by simp
next
  case (Cons a xs)
  show ?case
  proof (cases "f a = f x")
    case True
    then have "\<forall>y \<in> set xs. f y \<noteq> f x" using Cons.prems(1) by (force simp: image_iff)
    then have "filter (\<lambda>y. f y = f x) xs = []" by (simp add: filter_empty_conv)
    with True show ?thesis by simp
  next
    case False
    then have "x \<in> set xs" using Cons.prems(2) by auto
    with Cons False show ?thesis by simp
  qed
qed

lemma markTarget_one:
  assumes "distinct (map nid ns)" "t \<in> set ns" "\<not> isJammer t"
  shows "exactlyOneTarget (markTarget (Some t) ns)"
proof -
  have "filter isTarget (markTarget (Some t) ns)
        = map (\<lambda>n. n\<lparr>isTarget := nid n = nid t\<rparr>) (filter (\<lambda>n. nid n = nid t) ns)"
    by (simp add: markTarget_def filter_map comp_def)
  then have "length (filter isTarget (markTarget (Some t) ns)) = 1"
    using one_with_id[OF assms(1,2)] by simp
  moreover have "\<And>n. n \<in> set ns \<Longrightarrow> nid n = nid t \<Longrightarrow> n = t"
    using assms(1,2) by (meson distinct_map inj_onD)
  then have "list_all (\<lambda>n. isTarget n \<longrightarrow> \<not> isJammer n) (markTarget (Some t) ns)"
    using assms(3) by (auto simp: markTarget_def list_all_iff)
  ultimately show ?thesis by (simp add: exactlyOneTarget_def)
qed

lemma moveNode_keeps:
  "nid (moveNode n) = nid n" "isJammer (moveNode n) = isJammer n" "isTarget (moveNode n) = isTarget n"
  by (simp_all add: moveNode_def Let_def)

lemma moved_one: "exactlyOneTarget (map moveNode ns) = exactlyOneTarget ns"
  by (simp add: exactlyOneTarget_def filter_map comp_def moveNode_keeps list_all_iff)


subsection \<open>Well-formed node lists\<close>

lemma sameMotion_maps:
  "list_all2 sameMotion xs ys \<Longrightarrow> map nid ys = map nid xs \<and> map isJammer ys = map isJammer xs"
  by (induction rule: list_all2_induct) (auto simp: sameMotion_def)

lemma wfNodes_maps:
  "map nid ys = map nid xs \<Longrightarrow> map isJammer ys = map isJammer xs \<Longrightarrow> wfNodes xs \<Longrightarrow> wfNodes ys"
proof -
  assume a: "map nid ys = map nid xs" and b: "map isJammer ys = map isJammer xs" and w: "wfNodes xs"
  have "set (map isJammer ys) = set (map isJammer xs)" using b by simp
  then have "isJammer ` set ys = isJammer ` set xs" by simp
  then have "(\<exists>n \<in> set ys. isJammer n) = (\<exists>n \<in> set xs. isJammer n)"
    "(\<exists>n \<in> set ys. \<not> isJammer n) = (\<exists>n \<in> set xs. \<not> isJammer n)"
    by (metis (mono_tags, lifting) image_iff)+
  with a w show ?thesis by (simp add: wfNodes_def list_ex_iff)
qed

lemma moved_maps:
  "map nid (map moveNode ns) = map nid ns" "map isJammer (map moveNode ns) = map isJammer ns"
  by (simp_all add: moveNode_keeps)

lemma tick_wf:
  assumes "updateSimulation e s = Inr s'" "wfNodes (nodesRef s)"
  shows "wfNodes (nodesRef s')"
proof (cases "isRunning s")
  case False
  with assms show ?thesis by (simp add: tick_idle)
next
  case True
  have "list_all2 sameMotion (map moveNode (nodesRef s)) (nodesRef s')"
    using tick_frame(1)[OF assms(1) True] currentNodes_motion[of s e] by simp
  from sameMotion_maps[OF this]
  have "map nid (nodesRef s') = map nid (nodesRef s)"
    "map isJammer (nodesRef s') = map isJammer (nodesRef s)"
    by (simp_all add: moveNode_keeps)
  then show ?thesis using assms(2) by (rule wfNodes_maps)
qed

lemma newNode_simps: "nid (newNode r i) = i" "isJammer (newNode r i) = (i = 0)"
  "isTarget (newNode r i) = False"
  by (simp_all add: newNode_def split: prod.splits)

lemma init_wf: "wfNodes (initializeNodes r)"
proof -
  have n: "map nid (initializeNodes r) = [0..<NODE_COUNT]"
    by (simp add: initializeNodes_def newNode_simps comp_def)
  have "newNode r 0 \<in> set (initializeNodes r)" "newNode r 1 \<in> set (initializeNodes r)"
    by (simp_all add: initializeNodes_def NODE_COUNT_def)
  moreover have "isJammer (newNode r 0)" "\<not> isJammer (newNode r 1)"
    by (simp_all add: newNode_simps)
  ultimately show ?thesis
    unfolding wfNodes_def list_ex_iff n by (intro conjI distinct_upt bexI)
qed

lemma simWall_wf: "wfNodes (nodesRef simWall)"
  by (simp add: simWall_def toggleSimulation_def initialSim_def init_wf)

subsection \<open>The attack kinds\<close>

lemma jammer_found: "list_ex isJammer ns \<Longrightarrow> \<exists>j. find isJammer ns = Some j"
  by (cases "find isJammer ns") (auto simp: find_None_iff list_ex_iff)

lemma attack_intelligent:
  assumes "attackType s = INTELLIGENT" "list_ex isJammer (nodesRef s)"
  shows "attackResult e s =
           (True, 9/10,
            if frameRef s mod 60 = 0
            then markTarget (selectTarget (map moveNode (nodesRef s))) (map moveNode (nodesRef s))
            else map moveNode (nodesRef s),
            randomAttackStateRef s)"
  using assms jammer_found[OF assms(2)]
  by (auto simp: attackResult_def determineAttack_def)

lemma attack_constant:
  assumes "attackType s = CONSTANT" "list_ex isJammer (nodesRef s)"
  shows "attackResult e s = (True, 1, map moveNode (nodesRef s), randomAttackStateRef s)"
  using assms jammer_found[OF assms(2)]
  by (auto simp: attackResult_def determineAttack_def)

lemma attack_random:
  assumes "attackType s = RANDOM" "list_ex isJammer (nodesRef s)"
    "now e > nextSwitch (randomAttackStateRef s)"
  shows "snd (snd (snd (attackResult e s))) =
           \<lparr>isActive = (rndSwitchActive e > 0.5),
            nextSwitch = now e + (rndSwitchDuration e * 1500 + 500)\<rparr>"
  using assms jammer_found[OF assms(2)]
  by (auto simp: attackResult_def determineAttack_def Let_def)

lemma run_running: "run es s = Inr s' \<Longrightarrow> isRunning s \<Longrightarrow> isRunning s'"
proof (induction es arbitrary: s)
  case Nil
  then show ?case by simp
next
  case (Cons e es)
  then show ?case by (auto split: sum.splits dest: tick_frame(5))
qed

lemma run_frame:
  "run es s = Inr s' \<Longrightarrow> isRunning s \<Longrightarrow> consecutiveHandles (frameRef s) es
     \<Longrightarrow> frameRef s' = frameRef s + length es"
proof (induction es arbitrary: s)
  case Nil
  then show ?case by simp
next
  case (Cons e es)
  from Cons.prems(1) obtain s1 where t: "updateSimulation e s = Inr s1" and r: "run es s1 = Inr s'"
    by (auto split: sum.splits)
  have f: "frameRef s1 = Suc (frameRef s)" "isRunning s1"
    using tick_frame(3,5)[OF t Cons.prems(2)] Cons.prems(3) by simp_all
  have "frameRef s' = frameRef s1 + length es"
    using Cons.IH[OF r f(2)] Cons.prems(3) f(1) by simp
  then show ?case using f(1) by simp
qed

lemma recompute_one:
  assumes "wfNodes ns"
  shows "\<exists>t. mostConnected (map moveNode ns) = Some t \<and> t \<in> set (map moveNode ns) \<and> \<not> isJammer t
           \<and> (\<forall>n \<in> set (markTarget (Some t) (map moveNode ns)). isTarget n \<longleftrightarrow> nid n = nid t)
           \<and> exactlyOneTarget (markTarget (Some t) (map moveNode ns))"
proof -
  let ?m = "map moveNode ns"
  have w: "wfNodes ?m"
    using moved_maps assms by (rule wfNodes_maps)
  then have "\<exists>n \<in> set ?m. \<not> isJammer n" by (simp add: wfNodes_def list_ex_iff)
  from mostConnected_Some[OF this] obtain t where t: "mostConnected ?m = Some t" "t \<in> set ?m"
    "\<not> isJammer t" by blast
  have "exactlyOneTarget (markTarget (Some t) ?m)"
    using w t by (intro markTarget_one) (simp_all add: wfNodes_def)
  moreover have "\<forall>n \<in> set (markTarget (Some t) ?m). isTarget n \<longleftrightarrow> nid n = nid t"
    by (auto simp: markTarget_def)
  ultimately show ?thesis using t by blast
qed

lemma quietRun_facts:
  "length (quietRun t h k) = k" "consecutiveHandles h (quietRun t h k)"
  "\<forall>e \<in> set (quietRun t h k). \<not> rndGen e < 0.15"
  by (induction k arbitrary: t h) (simp_all add: quietEnv_simps)

lemma moved_flags: "map isTarget ((map moveNode ^^ k) ns) = map isTarget ns"
  by (induction k arbitrary: ns) (simp_all add: funpow_swap1 moveNode_keeps comp_def)

lemma run_between_recomputes:
  assumes "attackType s = INTELLIGENT" "isRunning s" "wfNodes (nodesRef s)"
    "consecutiveHandles (frameRef s) es" "\<forall>k < length es. (frameRef s + k) mod 60 \<noteq> 0"
    "\<forall>e \<in> set es. \<not> rndGen e < 0.15"
  shows "\<exists>s'. run es s = Inr s' \<and> attackType s' = INTELLIGENT \<and> isRunning s'
           \<and> wfNodes (nodesRef s') \<and> frameRef s' = frameRef s + length es
           \<and> nodesRef s' = (map moveNode ^^ length es) (nodesRef s)"
  using assms
proof (induction es arbitrary: s)
  case Nil
  then show ?case by simp
next
  case (Cons e es)
  have q: "\<not> rndGen e < 0.15" using Cons.prems(6) by simp
  obtain s1 where t: "updateSimulation e s = Inr s1"
    using tick_quiet[OF q] by blast
  have j: "list_ex isJammer (nodesRef s)" using Cons.prems(3) by (simp add: wfNodes_def)
  have f0: "frameRef s mod 60 \<noteq> 0" using Cons.prems(5) by force
  have s1: "attackType s1 = INTELLIGENT" "isRunning s1" "wfNodes (nodesRef s1)"
    "frameRef s1 = Suc (frameRef s)" "nodesRef s1 = map moveNode (nodesRef s)"
    using tick_frame(1,3,5,6)[OF t Cons.prems(2)] tick_wf[OF t Cons.prems(3)] Cons.prems(1,4) f0
    by (simp_all add: currentNodes_def attack_intelligent[OF Cons.prems(1) j])
  have c: "consecutiveHandles (frameRef s1) es" using Cons.prems(4) s1(4) by simp
  have n: "\<forall>k < length es. (frameRef s1 + k) mod 60 \<noteq> 0"
  proof (intro allI impI)
    fix k assume "k < length es"
    then have "Suc k < length (e # es)" by simp
    then have "(frameRef s + Suc k) mod 60 \<noteq> 0" using Cons.prems(5) by blast
    then show "(frameRef s1 + k) mod 60 \<noteq> 0" by (simp add: s1(4))
  qed
  have g: "\<forall>e \<in> set es. \<not> rndGen e < 0.15" using Cons.prems(6) by simp
  from Cons.IH[OF s1(1,2,3) c n g] obtain s' where
    r: "run es s1 = Inr s'" "attackType s' = INTELLIGENT" "isRunning s'" "wfNodes (nodesRef s')"
    "frameRef s' = frameRef s1 + length es"
    "nodesRef s' = (map moveNode ^^ length es) (nodesRef s1)" by blast
  have "run (e # es) s = Inr s'" by (simp add: t r(1))
  moreover have "frameRef s' = frameRef s + length (e # es)" by (simp add: r(5) s1(4))
  moreover have "nodesRef s' = (map moveNode ^^ length (e # es)) (nodesRef s)"
    by (simp add: r(6) s1(5) funpow_swap1)
  ultimately show ?case using r(2,3,4) by blast
qed

lemma hub_xy:
  "nx (newNode drawsHub i) = (if i = 0 then 400 else if i = 1 then 290 else if i = 2 then 400 else 410)"
  "ny (newNode drawsHub i) = (if i = 0 then 260 else 250)"
  "vx (newNode drawsHub i) = 0" "vy (newNode drawsHub i) = 0"
  by (simp_all add: newNode_def drawsHub_def WIDTH_def HEIGHT_def split: prod.splits)

lemma hub_static: "map moveNode nodesHub = nodesHub"
proof -
  have "\<And>i. moveNode (newNode drawsHub i) = newNode drawsHub i"
    by (simp add: moveNode_def Let_def hub_xy)
  then show ?thesis by (simp add: nodesHub_def)
qed

lemma hub_moved: "(map moveNode ^^ k) nodesHub = nodesHub"
  by (induction k) (simp_all add: hub_static)

lemma withinRange_iff:
  "withinRange a b \<longleftrightarrow> (nx a - nx b)\<^sup>2 + (ny a - ny b)\<^sup>2 < 14400"
proof -
  have "sqrt 14400 = 120" by (rule real_sqrt_unique) simp_all
  then have "withinRange a b \<longleftrightarrow> sqrt ((nx a - nx b)\<^sup>2 + (ny a - ny b)\<^sup>2) < sqrt 14400"
    by (simp add: withinRange_def)
  then show ?thesis by (simp only: real_sqrt_less_iff)
qed

lemma hub_counts:
  "neighbours nodesHub (newNode drawsHub (Suc 0)) = 2"
  "neighbours nodesHub (newNode drawsHub 2) = 39"
  unfolding neighbours_def nodesHub_def upt40
  by (simp_all add: withinRange_iff hub_xy newNode_simps)

lemma neighbours_bound: "n \<in> set ns \<Longrightarrow> neighbours ns n < length ns"
  unfolding neighbours_def by (rule length_filter_less[of n]) simp_all

lemma hub_target: "mostConnected nodesHub = Some (newNode drawsHub 2)"
proof -
  let ?c = "filter (\<lambda>n. \<not> isJammer n) nodesHub"
  let ?P = "\<lambda>n. list_all (\<lambda>m. neighbours nodesHub m \<le> neighbours nodesHub n) ?c"
  have u: "[0..<40] = 0 # Suc 0 # 2 # [3..<40]" by (simp add: upt_conv_Cons)
  have c: "?c = newNode drawsHub (Suc 0) # newNode drawsHub 2 # map (newNode drawsHub) [3..<40]"
    unfolding nodesHub_def u by (simp add: newNode_simps filter_map comp_def)
  have m: "newNode drawsHub 2 \<in> set ?c" by (subst c) simp
  have a: "\<not> ?P (newNode drawsHub (Suc 0))"
    using m by (auto simp: list_all_iff hub_counts intro!: bexI[of _ "newNode drawsHub 2"])
  have l: "length nodesHub = 40" by (simp add: nodesHub_def)
  have b: "?P (newNode drawsHub 2)"
  proof -
    have "\<forall>m \<in> set ?c. neighbours nodesHub m \<le> 39"
    proof
      fix m assume "m \<in> set ?c"
      then have "m \<in> set nodesHub" by simp
      from neighbours_bound[OF this] show "neighbours nodesHub m \<le> 39" by (simp add: l)
    qed
    then show ?thesis by (simp add: list_all_iff hub_counts)
  qed
  have "find ?P ?c = Some (newNode drawsHub 2)"
    by (subst c, subst find.simps, simp only: a if_False, subst find.simps, simp only: b if_True)
  then show ?thesis by (simp add: mostConnected_def Let_def)
qed

lemma simHub_facts:
  "isRunning simHub" "attackType simHub = INTELLIGENT" "frameRef simHub = 2"
  "nodesRef simHub = nodesHub" "wfNodes (nodesRef simHub)"
  using init_wf[of drawsHub]
  by (simp_all add: simHub_def setAttackType_def toggleSimulation_def initialSim_def
      initializeNodes_def NODE_COUNT_def nodesHub_def)

lemma hub_unflagged: "filter isTarget nodesHub = []"
  by (simp add: nodesHub_def filter_map comp_def newNode_simps)

lemma hub_run1:
  "\<exists>s. run (quietRun 1000 2 58) simHub = Inr s \<and> attackType s = INTELLIGENT \<and> isRunning s
       \<and> wfNodes (nodesRef s) \<and> frameRef s = 60 \<and> nodesRef s = nodesHub"
proof -
  have n: "\<forall>k < length (quietRun 1000 2 58). (frameRef simHub + k) mod 60 \<noteq> 0"
    by (simp add: quietRun_facts simHub_facts)
  have c: "consecutiveHandles (frameRef simHub) (quietRun 1000 2 58)"
    by (simp add: simHub_facts quietRun_facts)
  from run_between_recomputes[OF simHub_facts(2,1,5) c n quietRun_facts(3)]
  show ?thesis by (simp add: quietRun_facts simHub_facts hub_moved)
qed

text \<open>
  Claim C6, as stated: the target is recomputed on every 60th tick. The code keeps no
  tick count: it tests the handle that \<open>requestAnimationFrame\<close> returned for the tick
  (``recalculate target occasionally''). The browser counts handles up by one per
  request, and resuming a paused simulation requests a frame without a tick having run.
  Evaluated from creation under the Intelligent kind, first tick under handle 2:
  58 ticks run under the handles 2 to 59; the simulation is paused, which cancels frame
  60, and resumed, which requests frame 61; 59 more ticks run under the handles 61 to
  119. After these 117 ticks under the Intelligent kind no tick has recomputed the target
  and no node is flagged.
\<close>

theorem pause_postpones_retargeting:
  "case run (quietRun 1000 2 58) simHub of
     Inl err \<Rightarrow> False
   | Inr s \<Rightarrow>
       frameRef s = 60
       \<and> (case run (quietRun 2000 61 59) (toggleSimulation 61 (toggleSimulation 60 s)) of
            Inl err \<Rightarrow> False
          | Inr s' \<Rightarrow>
              attackType s' = INTELLIGENT \<and> isRunning s' \<and> frameRef s' = 120
              \<and> filter isTarget (nodesRef s') = [])"
proof -
  from hub_run1 obtain s where r: "run (quietRun 1000 2 58) simHub = Inr s"
    and s: "attackType s = INTELLIGENT" "isRunning s" "wfNodes (nodesRef s)" "frameRef s = 60"
    "nodesRef s = nodesHub" by blast
  let ?p = "toggleSimulation 61 (toggleSimulation 60 s)"
  have p: "attackType ?p = INTELLIGENT" "isRunning ?p" "wfNodes (nodesRef ?p)"
    "frameRef ?p = 61" "nodesRef ?p = nodesHub"
    using s by (simp_all add: toggleSimulation_def)
  have n: "\<forall>k < length (quietRun 2000 61 59). (frameRef ?p + k) mod 60 \<noteq> 0"
    unfolding p quietRun_facts by presburger
  have c: "consecutiveHandles (frameRef ?p) (quietRun 2000 61 59)"
    by (simp only: p quietRun_facts)
  from run_between_recomputes[OF p(1,2,3) c n quietRun_facts(3)] obtain s' where
    r': "run (quietRun 2000 61 59) ?p = Inr s'"
    and s': "attackType s' = INTELLIGENT" "isRunning s'" "frameRef s' = 120"
    "nodesRef s' = nodesHub"
    by (auto simp: quietRun_facts p hub_moved)
  show ?thesis
    unfolding r sum.case r' using s(4) s' by (simp add: hub_unflagged)
qed


text \<open>
  Claim C6, amended: under the Intelligent kind (jammer present, ids distinct, a
  non-jammer node present) every tick jams at power 0.9. A tick recomputes the target
  exactly when the frame handle it runs under, \<open>frameRef\<close>, is divisible by 60. In a run
  of ticks with no handler in between, where the handles count up by one per tick from
  \<open>frameRef s0\<close>, that handle is \<open>frameRef s0 + length es\<close>: every 60th tick of such a
  run recomputes and no other. A recompute marks the first non-jammer node whose number
  of neighbours within range no other non-jammer node exceeds and clears every other
  flag, so exactly one node, a non-jammer, is flagged; any other tick leaves the flags as
  they are; hence once exactly one node is flagged, exactly one stays flagged.
\<close>

theorem intelligent_retargets_every_60th_frame:
  assumes "run es s0 = Inr s" and "isRunning s0" and "consecutiveHandles (frameRef s0) es"
    and "attackType s = INTELLIGENT" and "wfNodes (nodesRef s)"
    and "updateSimulation e s = Inr s'"
  shows "jammingActive e s \<and> jammingPower e s = 9/10
       \<and> frameRef s = frameRef s0 + length es
       \<and> (frameRef s mod 60 = 0 \<longrightarrow>
            (\<exists>t. mostConnected (map moveNode (nodesRef s)) = Some t \<and> \<not> isJammer t
               \<and> nodesRef s' = markTarget (Some t) (map moveNode (nodesRef s))
               \<and> (\<forall>n \<in> set (nodesRef s'). isTarget n \<longleftrightarrow> nid n = nid t))
            \<and> exactlyOneTarget (nodesRef s'))
       \<and> (frameRef s mod 60 \<noteq> 0 \<longrightarrow>
            nodesRef s' = map moveNode (nodesRef s)
            \<and> map isTarget (nodesRef s') = map isTarget (nodesRef s))
       \<and> (exactlyOneTarget (nodesRef s) \<longrightarrow> exactlyOneTarget (nodesRef s'))"
proof -
  let ?m = "map moveNode (nodesRef s)"
  have rs: "isRunning s" using run_running[OF assms(1,2)] .
  have fr: "frameRef s = frameRef s0 + length es" using run_frame[OF assms(1,2,3)] .
  have j: "list_ex isJammer (nodesRef s)" using assms(5) by (simp add: wfNodes_def)
  note a = attack_intelligent[OF assms(4) j, of e]
  have n': "nodesRef s' = (if frameRef s mod 60 = 0 then markTarget (selectTarget ?m) ?m else ?m)"
    using tick_frame(1)[OF assms(6) rs] by (simp add: currentNodes_def a)
  from recompute_one[OF assms(5)] obtain t where t: "mostConnected ?m = Some t" "\<not> isJammer t"
    "\<forall>n \<in> set (markTarget (Some t) ?m). isTarget n \<longleftrightarrow> nid n = nid t"
    "exactlyOneTarget (markTarget (Some t) ?m)" by blast
  have c1: "jammingActive e s \<and> jammingPower e s = 9/10"
    by (simp add: jammingActive_def jammingPower_def a)
  have c2: "frameRef s mod 60 = 0 \<Longrightarrow>
            (\<exists>t. mostConnected ?m = Some t \<and> \<not> isJammer t
               \<and> nodesRef s' = markTarget (Some t) ?m
               \<and> (\<forall>n \<in> set (nodesRef s'). isTarget n \<longleftrightarrow> nid n = nid t))
            \<and> exactlyOneTarget (nodesRef s')"
    using t by (simp add: n' selectTarget_spec)
  have c3: "frameRef s mod 60 \<noteq> 0 \<Longrightarrow>
            nodesRef s' = ?m \<and> map isTarget (nodesRef s') = map isTarget (nodesRef s)"
    by (simp add: n' moveNode_keeps)
  have c4: "exactlyOneTarget (nodesRef s) \<Longrightarrow> exactlyOneTarget (nodesRef s')"
    using c2 c3 by (cases "frameRef s mod 60 = 0") (simp_all add: moved_one)
  show ?thesis using c1 c2 c3 c4 fr by blast
qed

lemma hub_marked:
  "map nid (filter isTarget (markTarget (Some (newNode drawsHub 2)) nodesHub)) = [2]"
proof -
  have u: "[0..<40] = 0 # Suc 0 # 2 # [3..<40]" by (simp add: upt_conv_Cons)
  have "filter (\<lambda>i. i = (2::nat)) [3..<40] = []" by (simp add: filter_empty_conv)
  then show ?thesis
    unfolding nodesHub_def u
    by (simp add: markTarget_def filter_map comp_def newNode_simps)
qed

theorem intelligent_retargets_every_60th_frame_witness:
  "isRunning simHub \<and> consecutiveHandles (frameRef simHub) (quietRun 1000 2 58)
   \<and> (case run (quietRun 1000 2 58) simHub of
        Inl err \<Rightarrow> False
      | Inr s \<Rightarrow>
          attackType s = INTELLIGENT \<and> wfNodes (nodesRef s) \<and> frameRef s = 60
          \<and> filter isTarget (nodesRef s) = []
          \<and> neighbours (map moveNode (nodesRef s)) (newNode drawsHub 1) = 2
          \<and> neighbours (map moveNode (nodesRef s)) (newNode drawsHub 2) = 39
          \<and> (case updateSimulation (quietEnv 2000 61) s of
               Inl err \<Rightarrow> False
             | Inr s' \<Rightarrow>
                 jammingActive (quietEnv 2000 61) s \<and> jammingPower (quietEnv 2000 61) s = 9/10
                 \<and> map nid (filter isTarget (nodesRef s')) = [2]
                 \<and> exactlyOneTarget (nodesRef s')))"
proof -
  from hub_run1 obtain s where r: "run (quietRun 1000 2 58) simHub = Inr s"
    and s: "attackType s = INTELLIGENT" "isRunning s" "wfNodes (nodesRef s)" "frameRef s = 60"
    "nodesRef s = nodesHub" by blast
  have c: "consecutiveHandles (frameRef simHub) (quietRun 1000 2 58)"
    by (simp add: simHub_facts quietRun_facts)
  obtain s' where t: "updateSimulation (quietEnv 2000 61) s = Inr s'"
    using tick_quiet[of "quietEnv 2000 61" s] by (auto simp: quietEnv_simps)
  from intelligent_retargets_every_60th_frame[OF r simHub_facts(1) c s(1,3) t]
  have a: "jammingActive (quietEnv 2000 61) s" "jammingPower (quietEnv 2000 61) s = 9/10"
    and b: "\<exists>t. mostConnected (map moveNode (nodesRef s)) = Some t
               \<and> nodesRef s' = markTarget (Some t) (map moveNode (nodesRef s))"
    and o: "exactlyOneTarget (nodesRef s')"
    by (auto simp: s(4))
  from b have n: "nodesRef s' = markTarget (Some (newNode drawsHub 2)) nodesHub"
    by (auto simp: s(5) hub_static hub_target)
  show ?thesis
    unfolding r sum.case t
    using simHub_facts(1) c s a o
    by (simp add: n hub_marked hub_static hub_counts hub_unflagged)
qed


subsection \<open>Switching the attack kind\<close>

lemma one_has_target: "exactlyOneTarget ns \<Longrightarrow> list_ex isTarget ns"
proof -
  assume "exactlyOneTarget ns"
  then have "filter isTarget ns \<noteq> []" by (auto simp: exactlyOneTarget_def)
  then show ?thesis by (simp add: filter_empty_conv list_ex_iff)
qed

text \<open>
  Claim C3, as stated: switching the attack kind resets Random's timer pair and the
  \<open>isTarget\<close> flags. It fails on a run from creation: a tick under Random sets the timer
  to (active, 2250), a tick under Intelligent on frame 60 flags a target, and the switch
  to Constant leaves both as they are; so does the tick that follows.
\<close>

theorem switch_does_not_reset:
  "case updateSimulation randEnv (setAttackType RANDOM 2 simWall) of
     Inl err \<Rightarrow> False
   | Inr s1 \<Rightarrow>
      (case updateSimulation (quietEnv 1016 61) (setAttackType INTELLIGENT 60 s1) of
         Inl err \<Rightarrow> False
       | Inr s2 \<Rightarrow>
          \<not> controllerReset (setAttackType CONSTANT 62 s2)
          \<and> randomAttackStateRef (setAttackType CONSTANT 62 s2)
              = \<lparr>isActive = True, nextSwitch = 2250\<rparr>
          \<and> list_ex isTarget (nodesRef (setAttackType CONSTANT 62 s2))
          \<and> (case updateSimulation (quietEnv 1032 63) (setAttackType CONSTANT 62 s2) of
               Inl err \<Rightarrow> False
             | Inr s3 \<Rightarrow> \<not> controllerReset s3 \<and> list_ex isTarget (nodesRef s3)))"
proof -
  let ?a = "setAttackType RANDOM 2 simWall"
  have a: "isRunning ?a" "attackType ?a = RANDOM" "wfNodes (nodesRef ?a)"
    "randomAttackStateRef ?a = \<lparr>isActive = False, nextSwitch = 0\<rparr>"
    using simWall_wf
    by (simp_all add: setAttackType_def simWall_def toggleSimulation_def initialSim_def)
  have re: "\<not> rndGen randEnv < 0.15" "now randEnv = 1000" "rndSwitchActive randEnv = 3/4"
    "rndSwitchDuration randEnv = 1/2"
    by (simp_all add: randEnv_def quietEnv_def)
  obtain s1 where t1: "updateSimulation randEnv ?a = Inr s1"
    using tick_quiet[OF re(1)] by blast
  have j1: "list_ex isJammer (nodesRef ?a)" using a(3) by (simp add: wfNodes_def)
  have s1: "isRunning s1" "attackType s1 = RANDOM" "wfNodes (nodesRef s1)"
    "randomAttackStateRef s1 = \<lparr>isActive = True, nextSwitch = 2250\<rparr>"
    using tick_frame(5,6,7)[OF t1 a(1)] tick_wf[OF t1 a(3)]
      attack_random[OF a(2) j1, of randEnv]
    by (simp_all add: a re)
  let ?b = "setAttackType INTELLIGENT 60 s1"
  have b: "isRunning ?b" "attackType ?b = INTELLIGENT" "wfNodes (nodesRef ?b)"
    "randomAttackStateRef ?b = \<lparr>isActive = True, nextSwitch = 2250\<rparr>" "frameRef ?b = 60"
    using s1 by (simp_all add: setAttackType_def)
  obtain s2 where t2: "updateSimulation (quietEnv 1016 61) ?b = Inr s2"
    using tick_quiet[of "quietEnv 1016 61" ?b] by (auto simp: quietEnv_simps)
  have j2: "list_ex isJammer (nodesRef ?b)" using b(3) by (simp add: wfNodes_def)
  from recompute_one[OF b(3)] obtain t where
    t: "mostConnected (map moveNode (nodesRef ?b)) = Some t"
       "exactlyOneTarget (markTarget (Some t) (map moveNode (nodesRef ?b)))"
    by blast
  have n2: "nodesRef s2 = markTarget (Some t) (map moveNode (nodesRef ?b))"
    using tick_frame(1)[OF t2 b(1)] t(1)
    by (simp add: currentNodes_def attack_intelligent[OF b(2) j2] b(5) selectTarget_spec)
  have s2: "isRunning s2" "attackType s2 = INTELLIGENT" "wfNodes (nodesRef s2)"
    "randomAttackStateRef s2 = \<lparr>isActive = True, nextSwitch = 2250\<rparr>"
    "exactlyOneTarget (nodesRef s2)"
    using tick_frame(5,6,7)[OF t2 b(1)] tick_wf[OF t2 b(3)] t(2)
    by (simp_all add: b attack_intelligent[OF b(2) j2] n2)
  let ?c = "setAttackType CONSTANT 62 s2"
  have c: "isRunning ?c" "attackType ?c = CONSTANT" "wfNodes (nodesRef ?c)"
    "randomAttackStateRef ?c = \<lparr>isActive = True, nextSwitch = 2250\<rparr>"
    "exactlyOneTarget (nodesRef ?c)"
    using s2 by (simp_all add: setAttackType_def)
  have nc: "\<not> controllerReset ?c"
    using c(4) by (simp add: controllerReset_def)
  obtain s3 where t3: "updateSimulation (quietEnv 1032 63) ?c = Inr s3"
    using tick_quiet[of "quietEnv 1032 63" ?c] by (auto simp: quietEnv_simps)
  have j3: "list_ex isJammer (nodesRef ?c)" using c(3) by (simp add: wfNodes_def)
  have "randomAttackStateRef s3 = \<lparr>isActive = True, nextSwitch = 2250\<rparr>"
    using tick_frame(7)[OF t3 c(1)] by (simp add: attack_constant[OF c(2) j3] c(4))
  then have n3: "\<not> controllerReset s3"
    by (simp add: controllerReset_def)
  have "nodesRef s3 = map moveNode (nodesRef ?c)"
    using tick_frame(1)[OF t3 c(1)] by (simp add: currentNodes_def attack_constant[OF c(2) j3])
  then have f3: "list_ex isTarget (nodesRef s3)"
    using c(5) by (simp add: one_has_target moved_one)
  show ?thesis
    unfolding t1 sum.case t2 t3 using nc c(4) one_has_target[OF c(5)] n3 f3 by simp
qed

text \<open>
  Claim C3, amended: switching the attack kind writes the kind (and the pending frame
  handle) and nothing else: Random's timer pair and the \<open>isTarget\<close> flags, which are part
  of the node list, are left as they are, and so are node positions, links and packets.
\<close>

theorem switch_writes_kind_only:
  "attackType (setAttackType k h s) = k
   \<and> randomAttackStateRef (setAttackType k h s) = randomAttackStateRef s
   \<and> nodesRef (setAttackType k h s) = nodesRef s
   \<and> links (setAttackType k h s) = links s
   \<and> packetsRef (setAttackType k h s) = packetsRef s"
  by (simp add: setAttackType_def)


subsection \<open>Links and interference\<close>

lemma multiplier_order:
  "(if (isTarget n1 \<or> isTarget n2) \<and> k = INTELLIGENT then 3 else (2::real))
   = (if k = INTELLIGENT \<and> (isTarget n1 \<or> isTarget n2) then 3 else 2)"
  by (simp add: conj_commute)

lemma linkQuality_claimed: "linkQuality a p j k n1 n2 = claimedQuality a p j k n1 n2"
  unfolding linkQuality_def claimedQuality_def Let_def MAX_RANGE_def multiplier_order
  by (cases j; cases a; simp only: option.case if_True if_False diff_zero)

lemma clamp_unit: "0 \<le> max 0 (min 1 (x::real)) \<and> max 0 (min 1 x) \<le> 1"
  by simp

lemma quality_unit: "0 \<le> claimedQuality a p j k n1 n2 \<and> claimedQuality a p j k n1 n2 \<le> 1"
  unfolding claimedQuality_def Let_def by (rule clamp_unit)


lemma upt_shift: "[Suc i..<Suc n] = map Suc [i..<n]"
  by (simp add: map_Suc_upt)

lemma pairs_Cons:
  "pairsInRange (n1 # rest) =
     map (\<lambda>m. (n1, m)) (filter (\<lambda>m. dist_nodes n1 m < 120) rest) @ pairsInRange rest"
proof -
  have "[0..<Suc (length rest)] = 0 # [Suc 0..<Suc (length rest)]"
    by (rule upt_conv_Cons) simp
  then have u: "[0..<length (n1 # rest)] = 0 # map Suc [0..<length rest]"
    by (simp add: map_Suc_upt del: upt_Suc)
  have h: "map (\<lambda>j. (n1, (n1 # rest) ! j))
             (filter (\<lambda>j. dist_nodes n1 ((n1 # rest) ! j) < 120) [Suc 0..<length (n1 # rest)])
           = map (\<lambda>m. (n1, m)) (filter (\<lambda>m. dist_nodes n1 m < 120) rest)"
  proof -
    have "map (\<lambda>m. (n1, m)) (filter (\<lambda>m. dist_nodes n1 m < 120) (map (\<lambda>j. rest ! j) [0..<length rest]))
          = map (\<lambda>m. (n1, m)) (filter (\<lambda>m. dist_nodes n1 m < 120) rest)"
      by (simp add: map_nth)
    then show ?thesis
      by (simp add: upt_shift filter_map comp_def del: upt_Suc)
  qed
  have t: "concat (map (\<lambda>i. map (\<lambda>j. ((n1 # rest) ! i, (n1 # rest) ! j))
                        (filter (\<lambda>j. dist_nodes ((n1 # rest) ! i) ((n1 # rest) ! j) < 120)
                                [Suc i..<length (n1 # rest)]))
                 (map Suc [0..<length rest]))
           = pairsInRange rest"
    unfolding pairsInRange_def
    by (simp add: comp_def upt_shift filter_map del: upt_Suc)
  show ?thesis
    unfolding pairsInRange_def[of "n1 # rest"] u using h t by simp
qed

lemma computeLinks_linksFor: "computeLinks a p j k ns = linksFor a p j k ns"
proof (induction ns)
  case Nil
  show ?case by (simp add: linksFor_def pairsInRange_def)
next
  case (Cons n1 rest)
  then show ?case
    by (simp add: linksFor_def pairs_Cons mkLink_def linkQuality_claimed MAX_RANGE_def comp_def)
qed

lemma pairs_set:
  "set (pairsInRange ns) =
     {(ns ! i, ns ! j) | i j. i < j \<and> j < length ns \<and> dist_nodes (ns ! i) (ns ! j) < 120}"
  unfolding pairsInRange_def
  apply (auto simp: Suc_le_eq)
  subgoal for i j by (rule bexI[of _ i], rule image_eqI[of _ _ j]) simp_all
  done


lemma linksFor_set:
  "set (linksFor a p j k ns) =
     {\<lparr>source = nid (ns ! i), target = nid (ns ! i'),
       quality = claimedQuality a p j k (ns ! i) (ns ! i')\<rparr> | i i'.
      i < i' \<and> i' < length ns \<and> dist_nodes (ns ! i) (ns ! i') < 120}"
  unfolding linksFor_def set_map pairs_set
  apply (auto simp: image_iff)
  subgoal for i i' by (intro exI[of _ "ns ! i"] exI[of _ "ns ! i'"] conjI exI[of _ i] exI[of _ i'] refl) simp_all
  done

lemma linksFor_unique:
  assumes "distinct (map nid ns)" "l \<in> set (linksFor a p j k ns)" "l' \<in> set (linksFor a p j k ns)"
    "source l = source l'" "target l = target l'"
  shows "l = l'"
proof -
  from assms(2) obtain i i' where l: "l = \<lparr>source = nid (ns ! i), target = nid (ns ! i'),
       quality = claimedQuality a p j k (ns ! i) (ns ! i')\<rparr>" "i < i'" "i' < length ns"
    unfolding linksFor_set by blast
  from assms(3) obtain m m' where l': "l' = \<lparr>source = nid (ns ! m), target = nid (ns ! m'),
       quality = claimedQuality a p j k (ns ! m) (ns ! m')\<rparr>" "m < m'" "m' < length ns"
    unfolding linksFor_set by blast
  have e: "nid (ns ! i) = nid (ns ! m)" "nid (ns ! i') = nid (ns ! m')"
    using assms(4,5) l l' by simp_all
  have b: "i < length (map nid ns)" "m < length (map nid ns)"
    "i' < length (map nid ns)" "m' < length (map nid ns)"
    using l(2,3) l'(2,3) by simp_all
  have "i = m"
    using nth_eq_iff_index_eq[OF assms(1) b(1,2)] e(1) b by simp
  moreover have "i' = m'"
    using nth_eq_iff_index_eq[OF assms(1) b(3,4)] e(2) b by simp
  ultimately show ?thesis using l(1) l'(1) by simp
qed

lemma avgQuality_mean: "avgQuality ls = mean (map quality ls)"
  by (simp add: avgQuality_def mean_def)

text \<open>
  The link list of a tick, with the jammer node that the code reads as a parameter of the
  formula: for every pair of positions \<open>i < j\<close> of the node list whose nodes are less
  than 120 apart, and for no other pair, one link from the first node's id to the
  second's, of the quality \<open>claimedQuality\<close> gives; every quality lies in \<open>[0, 1]\<close>, and
  the average link quality is the mean over the links, 0 without links.
\<close>

lemma links_follow_formula:
  assumes "isRunning s" and "updateSimulation e s = Inr s'"
  shows "links s' = linksFor (jammingActive e s) (jammingPower e s)
                      (find isJammer (nodesRef s)) (attackType s) (nodesRef s')
       \<and> set (links s') =
           {\<lparr>source = nid (nodesRef s' ! i), target = nid (nodesRef s' ! j),
             quality = claimedQuality (jammingActive e s) (jammingPower e s)
                         (find isJammer (nodesRef s)) (attackType s)
                         (nodesRef s' ! i) (nodesRef s' ! j)\<rparr> | i j.
            i < j \<and> j < length (nodesRef s')
            \<and> dist_nodes (nodesRef s' ! i) (nodesRef s' ! j) < 120}
       \<and> (\<forall>l \<in> set (links s'). 0 \<le> quality l \<and> quality l \<le> 1)
       \<and> avgQuality (links s') = mean (map quality (links s'))"
proof -
  have l: "links s' = linksFor (jammingActive e s) (jammingPower e s)
                      (find isJammer (nodesRef s)) (attackType s) (nodesRef s')"
    using tick_frame(1,2)[OF assms(2,1)] by (simp add: newLinks_def computeLinks_linksFor)
  have "\<forall>l \<in> set (links s'). 0 \<le> quality l \<and> quality l \<le> 1"
    unfolding l linksFor_set using quality_unit by auto
  then show ?thesis
    using l linksFor_set[of "jammingActive e s" "jammingPower e s" "find isJammer (nodesRef s)"
        "attackType s" "nodesRef s'"] avgQuality_mean
    by simp
qed


lemma dist_same_x: "nx n1 = nx n2 \<Longrightarrow> dist_nodes n1 n2 = \<bar>ny n2 - ny n1\<bar>"
  by (simp add: dist_nodes_def)

lemma simJam_facts:
  "isRunning simJam" "attackType simJam = CONSTANT"
  "find isJammer (nodesRef simJam) = Some (newNode drawsJam 0)"
  "wfNodes (nodesRef simJam)"
  using find_jammer_init[of drawsJam] init_wf[of drawsJam]
  by (simp_all add: simJam_def setAttackType_def toggleSimulation_def initialSim_def)

lemma simJam_nodes: "nodesRef simJam = map (newNode drawsJam) [0..<40]"
  by (simp add: simJam_def setAttackType_def toggleSimulation_def initialSim_def
      initializeNodes_def NODE_COUNT_def)

lemma jam_nodes:
  "nx (newNode drawsJam 0) = 100" "ny (newNode drawsJam 0) = 100"
  "nx (moveNode (newNode drawsJam 0)) = 100" "ny (moveNode (newNode drawsJam 0)) = 399/4"
  "nx (moveNode (newNode drawsJam 2)) = 100" "ny (moveNode (newNode drawsJam 2)) = 190"
  "nx (moveNode (newNode drawsJam 3)) = 100" "ny (moveNode (newNode drawsJam 3)) = 220"
  "isTarget (moveNode (newNode drawsJam 2)) = False" "isTarget (moveNode (newNode drawsJam 3)) = False"
  "nid (moveNode (newNode drawsJam 2)) = 2" "nid (moveNode (newNode drawsJam 3)) = 3"
  "isJammer (moveNode (newNode drawsJam 0))"
  by (simp_all add: newNode_def drawsJam_def moveNode_def Let_def WIDTH_def HEIGHT_def)

lemma jam_dists:
  "dist_nodes (moveNode (newNode drawsJam 2)) (moveNode (newNode drawsJam 3)) = 30"
  "dist_nodes (moveNode (newNode drawsJam 2)) (newNode drawsJam 0) = 90"
  "dist_nodes (moveNode (newNode drawsJam 3)) (newNode drawsJam 0) = 120"
  "dist_nodes (moveNode (newNode drawsJam 2)) (moveNode (newNode drawsJam 0)) = 361/4"
  "dist_nodes (moveNode (newNode drawsJam 3)) (moveNode (newNode drawsJam 0)) = 481/4"
  by (simp_all add: dist_same_x jam_nodes)

lemma jam_tick:
  assumes "updateSimulation (quietEnv 1000 3) simJam = Inr s'"
  shows "nodesRef s' = map moveNode (map (newNode drawsJam) [0..<40])"
    "jammingActive (quietEnv 1000 3) simJam" "jammingPower (quietEnv 1000 3) simJam = 1"
    "find isJammer (nodesRef s') = Some (moveNode (newNode drawsJam 0))"
proof -
  have j: "list_ex isJammer (nodesRef simJam)"
    using simJam_facts(4) by (simp add: wfNodes_def)
  note a = attack_constant[OF simJam_facts(2) j, of "quietEnv 1000 3"]
  show n: "nodesRef s' = map moveNode (map (newNode drawsJam) [0..<40])"
    using tick_frame(1)[OF assms simJam_facts(1)] by (simp add: currentNodes_def a simJam_nodes)
  show "jammingActive (quietEnv 1000 3) simJam" "jammingPower (quietEnv 1000 3) simJam = 1"
    by (simp_all add: jammingActive_def jammingPower_def a)
  have "[0..<40] = 0 # [1..<40]" by (simp add: upt_conv_Cons)
  then show "find isJammer (nodesRef s') = Some (moveNode (newNode drawsJam 0))"
    unfolding n by (simp add: jam_nodes)
qed

lemma moved_nth:
  "i < 40 \<Longrightarrow> map moveNode (map (newNode r) [0..<40]) ! i = moveNode (newNode r i)"
  by simp

lemma jam_pair:
  assumes "nodesRef s' = map moveNode (map (newNode drawsJam) [0..<40])"
  shows "\<lparr>source = 2, target = 3,
          quality = claimedQuality a p j k (moveNode (newNode drawsJam 2)) (moveNode (newNode drawsJam 3))\<rparr>
         \<in> set (linksFor a p j k (nodesRef s'))"
proof -
  have n: "nodesRef s' ! 2 = moveNode (newNode drawsJam 2)"
    "nodesRef s' ! 3 = moveNode (newNode drawsJam 3)" "length (nodesRef s') = 40"
    unfolding assms using moved_nth[of 2 drawsJam] moved_nth[of 3 drawsJam] by simp_all
  have "\<lparr>source = nid (nodesRef s' ! 2), target = nid (nodesRef s' ! 3),
          quality = claimedQuality a p j k (nodesRef s' ! 2) (nodesRef s' ! 3)\<rparr>
        \<in> set (linksFor a p j k (nodesRef s'))"
    unfolding linksFor_set
    by (rule CollectI, rule exI[of _ 2], rule exI[of _ 3]) (simp add: n jam_dists)
  then show ?thesis by (simp only: n jam_nodes)
qed

text \<open>
  Claim C5: the interference on a link is \<open>max(0, 1 - d_j/footprint)\<close> times power and
  multiplier, where \<open>d_j\<close> is the distance from the closer endpoint to the jammer. The
  code looks the jammer up in the node list before it moves the nodes (App.tsx, line 82)
  and keeps that node object, while the endpoints are the moved copies, so \<open>d_j\<close> is
  measured to where the jammer was before the tick moved it; the renderer draws the
  jamming radius around the moved jammer. Evaluated on one tick under Constant
  jamming, with the jammer created at (100, 100) and moved to (100, 99.75), node 2 at
  (100, 190) and node 3 at (100, 220): by the claim (\<open>claimedLinks\<close>, the formula with the
  jammer of the tick's node list) the link between 2 and 3 has quality
  \<open>0.75 - 2 * (1 - 90.25/120) = 61/240\<close>; the code gives
  \<open>0.75 - 2 * (1 - 90/120) = 1/4\<close>.
\<close>

theorem interference_uses_old_jammer_position:
  "case updateSimulation (quietEnv 1000 3) simJam of
     Inl err \<Rightarrow> False
   | Inr s' \<Rightarrow>
       links s' \<noteq> claimedLinks (jammingActive (quietEnv 1000 3) simJam)
                     (jammingPower (quietEnv 1000 3) simJam) (attackType simJam) (nodesRef s')
       \<and> \<lparr>source = 2, target = 3, quality = 1/4\<rparr> \<in> set (links s')
       \<and> \<lparr>source = 2, target = 3, quality = 61/240\<rparr>
           \<in> set (claimedLinks (jammingActive (quietEnv 1000 3) simJam)
                     (jammingPower (quietEnv 1000 3) simJam) (attackType simJam) (nodesRef s'))"
proof -
  let ?e = "quietEnv 1000 3"
  obtain s' where t: "updateSimulation ?e simJam = Inr s'"
    using tick_quiet[of ?e simJam] by (auto simp: quietEnv_simps)
  note k = jam_tick[OF t]
  have l: "links s' = linksFor True 1 (Some (newNode drawsJam 0)) CONSTANT (nodesRef s')"
    using tick_frame(1,2)[OF t simJam_facts(1)] k(2,3)
    by (simp add: newLinks_def computeLinks_linksFor simJam_facts)
  have c: "claimedLinks (jammingActive ?e simJam) (jammingPower ?e simJam) (attackType simJam)
             (nodesRef s')
           = linksFor True 1 (Some (moveNode (newNode drawsJam 0))) CONSTANT (nodesRef s')"
    using k by (simp add: claimedLinks_def simJam_facts)
  have q1: "claimedQuality True 1 (Some (newNode drawsJam 0)) CONSTANT
              (moveNode (newNode drawsJam 2)) (moveNode (newNode drawsJam 3)) = 1/4"
    by (simp add: claimedQuality_def jam_dists jam_nodes)
  have q2: "claimedQuality True 1 (Some (moveNode (newNode drawsJam 0))) CONSTANT
              (moveNode (newNode drawsJam 2)) (moveNode (newNode drawsJam 3)) = 61/240"
    by (simp add: claimedQuality_def jam_dists jam_nodes)
  have m1: "\<lparr>source = 2, target = 3, quality = 1/4\<rparr> \<in> set (links s')"
    unfolding l using jam_pair[OF k(1), of True 1 "Some (newNode drawsJam 0)" CONSTANT]
    by (simp add: q1)
  have m2: "\<lparr>source = 2, target = 3, quality = 61/240\<rparr>
            \<in> set (linksFor True 1 (Some (moveNode (newNode drawsJam 0))) CONSTANT (nodesRef s'))"
    using jam_pair[OF k(1), of True 1 "Some (moveNode (newNode drawsJam 0))" CONSTANT]
    by (simp add: q2)
  have d: "distinct (map nid (nodesRef s'))"
    using tick_wf[OF t simJam_facts(4)] by (simp add: wfNodes_def)
  have ne: "links s' \<noteq> linksFor True 1 (Some (moveNode (newNode drawsJam 0))) CONSTANT (nodesRef s')"
  proof
    assume eq: "links s' = linksFor True 1 (Some (moveNode (newNode drawsJam 0))) CONSTANT (nodesRef s')"
    have "\<lparr>source = 2, target = 3, quality = 1/4\<rparr> = \<lparr>source = 2, target = 3, quality = 61/240 :: real\<rparr>"
      using linksFor_unique[OF d m1[unfolded eq] m2] by simp
    then show False by simp
  qed
  show ?thesis unfolding t sum.case c using ne m1 m2 by simp
qed

lemma links_follow_formula_example:
  "isRunning simJam
   \<and> (case updateSimulation (quietEnv 1000 3) simJam of
        Inl err \<Rightarrow> False
      | Inr s' \<Rightarrow>
          links s' = linksFor True 1 (Some (newNode drawsJam 0)) CONSTANT (nodesRef s')
          \<and> (\<forall>l \<in> set (links s'). 0 \<le> quality l \<and> quality l \<le> 1))"
proof -
  let ?e = "quietEnv 1000 3"
  obtain s' where t: "updateSimulation ?e simJam = Inr s'"
    using tick_quiet[of ?e simJam] by (auto simp: quietEnv_simps)
  note k = jam_tick[OF t]
  show ?thesis
    unfolding t sum.case using links_follow_formula[OF simJam_facts(1) t] k(2,3) simJam_facts(1)
    by (simp add: simJam_facts)
qed


subsection \<open>Packet movement\<close>

lemma dist_nonneg: "0 \<le> dist_nodes a b"
  by (simp add: dist_nodes_def)

lemma inFlightE:
  assumes "inFlight p"
  obtains a x y where "progress p = Fin a" "0 \<le> a" "a < 1" "px p = Fin x" "py p = Fin y"
    "\<not> delivered p" "\<not> lost p"
proof -
  from assms obtain a where "progress p = Fin a" "0 \<le> a" "a < 1"
    by (cases "progress p") (auto simp: inFlight_def)
  moreover from assms obtain x where "px p = Fin x"
    by (cases "px p") (auto simp: inFlight_def)
  moreover from assms obtain y where "py p = Fin y"
    by (cases "py p") (auto simp: inFlight_def)
  ultimately show ?thesis using that assms by (auto simp: inFlight_def)
qed

lemma movement_zero:
  assumes "inFlight p" "dist_nodes src tgt = 0"
  shows "movement e i p src tgt =
           (p\<lparr>px := Fin (nx tgt), py := Fin (ny tgt), progress := Fin 1, delivered := True\<rparr>,
            DeliveredEvent (nowDelivered e i - createdAt p))"
proof -
  from assms(1) obtain a where "progress p = Fin a" by (rule inFlightE)
  then show ?thesis
    using assms(2) by (simp add: movement_def Let_def PACKET_SPEED_def jge_def)
qed

lemma movement_step:
  assumes "inFlight p"
  shows "pid (fst (movement e i p src tgt)) = pid p
       \<and> \<not> lost (fst (movement e i p src tgt))
       \<and> jle (progress p) (progress (fst (movement e i p src tgt)))
       \<and> (\<not> delivered (fst (movement e i p src tgt)) \<longrightarrow> inFlight (fst (movement e i p src tgt)))
       \<and> isFinite (px (fst (movement e i p src tgt)))
       \<and> isFinite (py (fst (movement e i p src tgt)))
       \<and> isFinite (progress (fst (movement e i p src tgt)))"
proof -
  from assms obtain a x y where p: "progress p = Fin a" "0 \<le> a" "a < 1" "px p = Fin x"
    "py p = Fin y" "\<not> delivered p" "\<not> lost p" by (rule inFlightE)
  show ?thesis
  proof (cases "dist_nodes src tgt = 0")
    case True
    show ?thesis
      using p by (simp add: movement_zero[OF assms True])
  next
    case False
    then have d: "0 < dist_nodes src tgt" using dist_nonneg[of src tgt] by simp
    then have "0 \<le> 3 / dist_nodes src tgt" by simp
    then show ?thesis
      using p False
      by (simp add: movement_def Let_def PACKET_SPEED_def jge_def inFlight_def)
  qed
qed

lemma advance_cases:
  assumes "\<not> delivered p" "\<not> lost p"
  shows "advancePacket e ns ls i p = (p\<lparr>lost := True\<rparr>, LostEvent)
       \<or> (\<exists>src tgt. advancePacket e ns ls i p = movement e i p src tgt)"
proof (cases "find (\<lambda>n. nid n = sourceId p) ns")
  case None
  then show ?thesis using assms by (simp add: advancePacket_def)
next
  case src: (Some src)
  show ?thesis
  proof (cases "find (\<lambda>n. nid n = targetId p) ns")
    case None
    then show ?thesis using assms src by (simp add: advancePacket_def)
  next
    case (Some tgt)
    show ?thesis
    proof (cases "(case findLink p ls of None \<Rightarrow> True | Some l \<Rightarrow> quality l \<le> 0.2)
                  \<and> rndLoss e i < 0.15")
      case True
      then show ?thesis using assms src Some by (simp add: advancePacket_def Let_def)
    next
      case False
      then have "advancePacket e ns ls i p = movement e i p src tgt"
        using assms src Some by (auto simp: advancePacket_def Let_def)
      then show ?thesis by blast
    qed
  qed
qed

lemma advance_step:
  assumes "inFlight p"
  shows "pid (fst (advancePacket e ns ls i p)) = pid p
       \<and> \<not> (delivered (fst (advancePacket e ns ls i p)) \<and> lost (fst (advancePacket e ns ls i p)))
       \<and> jle (progress p) (progress (fst (advancePacket e ns ls i p)))
       \<and> (nonTerminal (fst (advancePacket e ns ls i p)) \<longrightarrow> inFlight (fst (advancePacket e ns ls i p)))
       \<and> isFinite (px (fst (advancePacket e ns ls i p)))
       \<and> isFinite (py (fst (advancePacket e ns ls i p)))
       \<and> isFinite (progress (fst (advancePacket e ns ls i p)))"
proof -
  from assms obtain a x y where p: "progress p = Fin a" "0 \<le> a" "a < 1" "px p = Fin x"
    "py p = Fin y" "\<not> delivered p" "\<not> lost p" by (rule inFlightE)
  have l: "pid (p\<lparr>lost := True\<rparr>) = pid p
       \<and> \<not> (delivered (p\<lparr>lost := True\<rparr>) \<and> lost (p\<lparr>lost := True\<rparr>))
       \<and> jle (progress p) (progress (p\<lparr>lost := True\<rparr>))
       \<and> (nonTerminal (p\<lparr>lost := True\<rparr>) \<longrightarrow> inFlight (p\<lparr>lost := True\<rparr>))
       \<and> isFinite (px (p\<lparr>lost := True\<rparr>)) \<and> isFinite (py (p\<lparr>lost := True\<rparr>))
       \<and> isFinite (progress (p\<lparr>lost := True\<rparr>))"
    using p by (simp add: nonTerminal_def)
  consider (lose) "advancePacket e ns ls i p = (p\<lparr>lost := True\<rparr>, LostEvent)"
    | (move) src tgt where "advancePacket e ns ls i p = movement e i p src tgt"
    using advance_cases[OF p(6,7), of e ns ls i] by blast
  then show ?thesis
  proof cases
    case lose
    then show ?thesis using l by simp
  next
    case (move src tgt)
    then show ?thesis using movement_step[OF assms, of e i src tgt]
      by (auto simp: nonTerminal_def)
  qed
qed

lemma advanceAll_nth:
  "i < length ps \<Longrightarrow> advanceAll e ns ls ps ! i = advancePacket e ns ls i (ps ! i)"
  by (simp add: advanceAll_def enumerate_eq_zip)

lemma advanceAll_length: "length (advanceAll e ns ls ps) = length ps"
  by (simp add: advanceAll_def)

lemma retained_inFlight:
  assumes "list_all inFlight ps"
  shows "list_all inFlight (filter (\<lambda>p. \<not> delivered p \<and> \<not> lost p) (map fst (advanceAll e ns ls ps)))"
proof -
  have "\<And>q. q \<in> set (map fst (advanceAll e ns ls ps)) \<Longrightarrow> \<not> delivered q \<and> \<not> lost q \<Longrightarrow> inFlight q"
  proof -
    fix q assume "q \<in> set (map fst (advanceAll e ns ls ps))" and nt: "\<not> delivered q \<and> \<not> lost q"
    then obtain i where i: "i < length ps" "q = fst (advanceAll e ns ls ps ! i)"
      by (auto simp: in_set_conv_nth advanceAll_length)
    then have "inFlight (ps ! i)" using assms by (simp add: list_all_length)
    from advance_step[OF this, of e ns ls i] show "inFlight q"
      using i nt by (simp add: advanceAll_nth nonTerminal_def)
  qed
  then show ?thesis by (auto simp: list_all_iff)
qed

lemma generated_inFlight: "generatePacket e ns ls = Inr (Some p) \<Longrightarrow> inFlight p \<and> progress p = Fin 0"
  by (auto simp: generatePacket_def Let_def inFlight_def split: if_splits option.splits)

lemma traffic_packets:
  assumes "traffic e ns ls s = Inr s1"
  shows "\<exists>new. (new = [] \<or> (\<exists>p0. new = [p0] \<and> inFlight p0 \<and> progress p0 = Fin 0))
           \<and> packetsRef s1 = filter (\<lambda>p. \<not> delivered p \<and> \<not> lost p)
                                  (map fst (advanceAll e ns ls (packetsRef s @ new)))"
proof (cases "generatePacket e ns ls")
  case (Inl err)
  with assms show ?thesis by (simp add: traffic_def)
next
  case (Inr gen)
  show ?thesis
  proof (cases gen)
    case None
    with Inr assms show ?thesis
      by (intro exI[of _ "[]"]) (auto simp: traffic_def Let_def)
  next
    case (Some p0)
    with Inr assms generated_inFlight[of e ns ls p0] show ?thesis
      by (intro exI[of _ "[p0]"]) (auto simp: traffic_def Let_def)
  qed
qed

lemma tick_packets:
  assumes "updateSimulation e s = Inr s'" "isRunning s"
  shows "\<exists>new. (new = [] \<or> (\<exists>p0. new = [p0] \<and> inFlight p0 \<and> progress p0 = Fin 0))
           \<and> packetsRef s' = filter (\<lambda>p. \<not> delivered p \<and> \<not> lost p)
                (map fst (advanceAll e (currentNodes e s) (newLinks e s) (packetsRef s @ new)))"
proof -
  obtain s1 where t: "traffic e (currentNodes e s) (newLinks e s) s = Inr s1"
    and s': "s' = (logStep e (jammingActive e s) (jammingPower e s) (avgQuality (newLinks e s))
                 (s1\<lparr>randomAttackStateRef := snd (snd (snd (attackResult e s)))\<rparr>))
              \<lparr>nodesRef := currentNodes e s, links := newLinks e s, frameRef := rafHandle e\<rparr>"
    using assms by (rule tick_cases)
  have "packetsRef s' = packetsRef s1" by (simp add: s' logStep_frame)
  with traffic_packets[OF t] show ?thesis by simp
qed

lemma tick_inFlight:
  assumes "updateSimulation e s = Inr s'" "list_all inFlight (packetsRef s)"
  shows "list_all inFlight (packetsRef s')"
proof (cases "isRunning s")
  case False
  with assms show ?thesis by (simp add: tick_idle)
next
  case True
  from tick_packets[OF assms(1) True] obtain new where
    n: "new = [] \<or> (\<exists>p0. new = [p0] \<and> inFlight p0 \<and> progress p0 = Fin 0)"
    and p: "packetsRef s' = filter (\<lambda>p. \<not> delivered p \<and> \<not> lost p)
                (map fst (advanceAll e (currentNodes e s) (newLinks e s) (packetsRef s @ new)))"
    by blast
  have "list_all inFlight (packetsRef s @ new)" using assms(2) n by auto
  from retained_inFlight[OF this] show ?thesis by (simp add: p)
qed

lemma run_inFlight:
  "run es s = Inr s' \<Longrightarrow> list_all inFlight (packetsRef s) \<Longrightarrow> list_all inFlight (packetsRef s')"
proof (induction es arbitrary: s)
  case Nil
  then show ?case by simp
next
  case (Cons e es)
  then show ?case by (auto split: sum.splits dest: tick_inFlight)
qed

text \<open>
  Claim C8: in a run that starts with in-flight packets only (none, at creation), the
  packet list holds in-flight packets before and after every tick. The tick advances each
  packet of the list to a packet with the same id whose progress is not below the old
  one and which is not both delivered and lost; what the tick keeps are the non-terminal
  ones among the advanced packets, together with the new packet (progress 0) if one was
  generated.
\<close>

theorem progress_never_decreases:
  assumes "list_all inFlight (packetsRef s0)" and "run es s0 = Inr s"
    and "updateSimulation e s = Inr s'"
  shows "list_all inFlight (packetsRef s) \<and> list_all inFlight (packetsRef s')
       \<and> (\<forall>i < length (packetsRef s).
            pid (fst (advancePacket e (currentNodes e s) (newLinks e s) i (packetsRef s ! i)))
              = pid (packetsRef s ! i)
            \<and> jle (progress (packetsRef s ! i))
                 (progress (fst (advancePacket e (currentNodes e s) (newLinks e s) i (packetsRef s ! i))))
            \<and> \<not> (delivered (fst (advancePacket e (currentNodes e s) (newLinks e s) i (packetsRef s ! i)))
                 \<and> lost (fst (advancePacket e (currentNodes e s) (newLinks e s) i (packetsRef s ! i)))))
       \<and> (isRunning s \<longrightarrow>
            (\<exists>new. (new = [] \<or> (\<exists>p0. new = [p0] \<and> inFlight p0 \<and> progress p0 = Fin 0))
               \<and> packetsRef s' = filter (\<lambda>p. \<not> delivered p \<and> \<not> lost p)
                    (map fst (advanceAll e (currentNodes e s) (newLinks e s) (packetsRef s @ new)))))"
proof -
  have a: "list_all inFlight (packetsRef s)" using run_inFlight[OF assms(2,1)] .
  have b: "list_all inFlight (packetsRef s')" using tick_inFlight[OF assms(3) a] .
  have c: "\<forall>i < length (packetsRef s).
            pid (fst (advancePacket e (currentNodes e s) (newLinks e s) i (packetsRef s ! i)))
              = pid (packetsRef s ! i)
            \<and> jle (progress (packetsRef s ! i))
                 (progress (fst (advancePacket e (currentNodes e s) (newLinks e s) i (packetsRef s ! i))))
            \<and> \<not> (delivered (fst (advancePacket e (currentNodes e s) (newLinks e s) i (packetsRef s ! i)))
                 \<and> lost (fst (advancePacket e (currentNodes e s) (newLinks e s) i (packetsRef s ! i))))"
  proof (intro allI impI)
    fix i assume "i < length (packetsRef s)"
    then have "inFlight (packetsRef s ! i)" using a by (simp add: list_all_length)
    from advance_step[OF this, of e "currentNodes e s" "newLinks e s" i]
    show "pid (fst (advancePacket e (currentNodes e s) (newLinks e s) i (packetsRef s ! i)))
              = pid (packetsRef s ! i)
            \<and> jle (progress (packetsRef s ! i))
                 (progress (fst (advancePacket e (currentNodes e s) (newLinks e s) i (packetsRef s ! i))))
            \<and> \<not> (delivered (fst (advancePacket e (currentNodes e s) (newLinks e s) i (packetsRef s ! i)))
                 \<and> lost (fst (advancePacket e (currentNodes e s) (newLinks e s) i (packetsRef s ! i))))"
      by simp
  qed
  show ?thesis using a b c tick_packets[OF assms(3)] by blast
qed


text \<open>
  Claim C7, amended: for an in-flight packet whose source and target nodes resolve and
  coincide in position, the step first makes the loss draw when the link is missing or
  of quality at most 0.2, and marks the packet lost, unchanged otherwise, when the draw
  is below 0.15; in every other case \<open>3 / 0\<close> is \<open>Infinity\<close>, the new progress is
  \<open>Infinity \<ge> 1\<close>, and the packet is delivered on that tick with the target's
  coordinates, progress 1 and a latency sample that is a difference of two timestamps.
  Either way position and progress of the result are finite, and the packets a tick
  keeps from in-flight packets are in flight, so finite.
\<close>

theorem coincident_endpoints_deliver_unless_lost:
  assumes "inFlight p" and "find (\<lambda>n. nid n = sourceId p) ns = Some src"
    and "find (\<lambda>n. nid n = targetId p) ns = Some tgt" and "dist_nodes src tgt = 0"
  shows "advancePacket e ns ls i p =
           (if weakLink p ls \<and> rndLoss e i < 0.15 then (p\<lparr>lost := True\<rparr>, LostEvent)
            else (p\<lparr>px := Fin (nx tgt), py := Fin (ny tgt), progress := Fin 1, delivered := True\<rparr>,
                  DeliveredEvent (nowDelivered e i - createdAt p)))
       \<and> isFinite (px (fst (advancePacket e ns ls i p)))
       \<and> isFinite (py (fst (advancePacket e ns ls i p)))
       \<and> isFinite (progress (fst (advancePacket e ns ls i p)))
       \<and> (list_all inFlight ps \<longrightarrow>
            list_all inFlight (filter (\<lambda>p. \<not> delivered p \<and> \<not> lost p)
                                      (map fst (advanceAll e ns ls ps))))"
proof -
  have nt: "\<not> delivered p" "\<not> lost p" using assms(1) by (simp_all add: inFlight_def)
  have "advancePacket e ns ls i p =
           (if weakLink p ls \<and> rndLoss e i < 0.15 then (p\<lparr>lost := True\<rparr>, LostEvent)
            else movement e i p src tgt)"
    using nt assms(2,3) by (auto simp: advancePacket_def Let_def weakLink_def)
  then have a: "advancePacket e ns ls i p =
           (if weakLink p ls \<and> rndLoss e i < 0.15 then (p\<lparr>lost := True\<rparr>, LostEvent)
            else (p\<lparr>px := Fin (nx tgt), py := Fin (ny tgt), progress := Fin 1, delivered := True\<rparr>,
                  DeliveredEvent (nowDelivered e i - createdAt p)))"
    by (simp add: movement_zero[OF assms(1,4)])
  show ?thesis
    using a advance_step[OF assms(1), of e ns ls i] retained_inFlight[of ps e ns ls] by blast
qed

subsection \<open>Packet generation\<close>

lemma at_index_mem: "at_index xs i = Some x \<Longrightarrow> x \<in> set xs"
  by (auto simp: at_index_def split: if_splits)

lemma at_index_pick:
  assumes "k < length xs"
  shows "at_index xs \<lfloor>real k / real (length xs) * real (length xs)\<rfloor> = Some (xs ! k)"
proof -
  have "length xs \<noteq> 0" using assms by auto
  then have "real k / real (length xs) * real (length xs) = real k" by simp
  then show ?thesis using assms by (simp add: at_index_def)
qed

lemma frac_lt_one: "k < n \<Longrightarrow> real k / real n < 1"
  by (cases "n = 0") (simp_all add: divide_less_eq_1_pos)

lemma find_some_id:
  assumes "tn \<in> set ns"
  shows "\<exists>x. find (\<lambda>n. nid n = nid tn) ns = Some x"
  using assms by (cases "find (\<lambda>n. nid n = nid tn) ns") (auto simp: find_None_iff)

lemma neighbor_of_link:
  assumes "l \<in> set ls" "quality l > 0.1"
    "(source l = nid src \<and> target l = t) \<or> (target l = nid src \<and> source l = t)"
  shows "t \<in> set (neighborsOf src ls)"
  using assms unfolding neighborsOf_def by (auto simp: image_iff intro!: bexI[of _ l])

lemma link_of_neighbor:
  assumes "t \<in> set (neighborsOf src ls)"
  shows "\<exists>l \<in> set ls. quality l > 1/10
           \<and> ((source l = nid src \<and> target l = t) \<or> (target l = nid src \<and> source l = t))"
  using assms unfolding neighborsOf_def by (auto split: if_splits)

text \<open>
  Claim C10: with distinct node ids, the source of a generated packet is a node that is
  not flagged as jammer, so its id is not the jammer's; the destination is the id of a
  node of the list, joined to the source by a link of quality above 0.1. Conversely, for
  every non-jammer node and every node \<open>tn\<close> that such a link joins to it, the jammer
  included, there are draws in \<open>[0, 1)\<close> for which the packet goes from that node to
  \<open>tn\<close>.
\<close>

theorem packet_endpoints:
  assumes "distinct (map nid ns)"
  shows "(\<forall>p. generatePacket e ns ls = Inr (Some p) \<longrightarrow>
            (\<exists>src \<in> set ns. \<not> isJammer src \<and> sourceId p = nid src
                \<and> (\<exists>l \<in> set ls. quality l > 1/10
                      \<and> ((source l = nid src \<and> target l = targetId p)
                          \<or> (target l = nid src \<and> source l = targetId p))))
            \<and> (\<exists>tgt \<in> set ns. targetId p = nid tgt)
            \<and> (\<forall>j \<in> set ns. isJammer j \<longrightarrow> sourceId p \<noteq> nid j))
       \<and> (\<forall>k l tn. k < length ns \<and> \<not> isJammer (ns ! k) \<and> l \<in> set ls \<and> quality l > 1/10
              \<and> tn \<in> set ns
              \<and> ((source l = nid (ns ! k) \<and> target l = nid tn)
                  \<or> (target l = nid (ns ! k) \<and> source l = nid tn)) \<longrightarrow>
            (\<exists>e'. 0 \<le> rndSource e' \<and> rndSource e' < 1 \<and> 0 \<le> rndTarget e' \<and> rndTarget e' < 1
               \<and> (\<exists>p. generatePacket e' ns ls = Inr (Some p)
                      \<and> sourceId p = nid (ns ! k) \<and> targetId p = nid tn)))"
proof (intro conjI allI impI)
  fix p assume g: "generatePacket e ns ls = Inr (Some p)"
  from g obtain src where src: "at_index ns \<lfloor>rndSource e * real (length ns)\<rfloor> = Some src"
    "\<not> isJammer src" "sourceId p = nid src"
    by (auto simp: generatePacket_def Let_def split: if_splits option.splits)
  from g src obtain tid where tid: "at_index (neighborsOf src ls)
        \<lfloor>rndTarget e * real (length (neighborsOf src ls))\<rfloor> = Some tid" "targetId p = tid"
    by (auto simp: generatePacket_def Let_def split: if_splits option.splits)
  from g src tid obtain tgt where tgt: "find (\<lambda>n. nid n = tid) ns = Some tgt"
    by (auto simp: generatePacket_def Let_def split: if_splits option.splits)
  have m: "src \<in> set ns" using src(1) by (rule at_index_mem)
  have t: "targetId p \<in> set (neighborsOf src ls)" using tid at_index_mem by fastforce
  show "\<exists>src \<in> set ns. \<not> isJammer src \<and> sourceId p = nid src
                \<and> (\<exists>l \<in> set ls. quality l > 1/10
                      \<and> ((source l = nid src \<and> target l = targetId p)
                          \<or> (target l = nid src \<and> source l = targetId p)))"
    using m src(2,3) link_of_neighbor[OF t] by blast
  show "\<exists>tgt \<in> set ns. targetId p = nid tgt"
  proof -
    from tgt have "tgt \<in> set ns" "nid tgt = tid" by (auto simp: find_Some_iff)
    then show ?thesis using tid(2) by auto
  qed
  show "\<forall>j \<in> set ns. isJammer j \<longrightarrow> sourceId p \<noteq> nid j"
  proof (intro ballI impI notI)
    fix j assume j: "j \<in> set ns" "isJammer j" "sourceId p = nid j"
    then have "src = j" using assms m src(3) by (metis distinct_map inj_onD)
    then show False using j(2) src(2) by simp
  qed
next
  fix k l tn
  assume h: "k < length ns \<and> \<not> isJammer (ns ! k) \<and> l \<in> set ls \<and> quality l > 1/10
              \<and> tn \<in> set ns
              \<and> ((source l = nid (ns ! k) \<and> target l = nid tn)
                  \<or> (target l = nid (ns ! k) \<and> source l = nid tn))"
  let ?src = "ns ! k"
  let ?nb = "neighborsOf ?src ls"
  have "nid tn \<in> set ?nb" using h neighbor_of_link[of l ls ?src "nid tn"] by simp
  then obtain m where m: "m < length ?nb" "?nb ! m = nid tn"
    by (auto simp: in_set_conv_nth)
  from find_some_id obtain x where x: "find (\<lambda>n. nid n = nid tn) ns = Some x"
    using h by blast
  let ?e = "e\<lparr>rndGen := 0, rndSource := real k / real (length ns),
              rndTarget := real m / real (length ?nb)\<rparr>"
  have k: "k < length ns" using h by simp
  have r: "0 \<le> rndSource ?e" "rndSource ?e < 1" "0 \<le> rndTarget ?e" "rndTarget ?e < 1"
    using frac_lt_one[OF k] frac_lt_one[OF m(1)] by simp_all
  have s: "at_index ns \<lfloor>rndSource ?e * real (length ns)\<rfloor> = Some ?src"
    using at_index_pick[OF k] by simp
  have t: "at_index ?nb \<lfloor>rndTarget ?e * real (length ?nb)\<rfloor> = Some (nid tn)"
    using at_index_pick[OF m(1)] m(2) by simp
  have n0: "length ns \<noteq> 0" "length ?nb \<noteq> 0" "?nb \<noteq> []" using k m(1) by auto
  have "\<exists>p. generatePacket ?e ns ls = Inr (Some p) \<and> sourceId p = nid ?src \<and> targetId p = nid tn"
    using h m x n0 by (simp add: generatePacket_def Let_def at_index_def)
  then show "\<exists>e'. 0 \<le> rndSource e' \<and> rndSource e' < 1 \<and> 0 \<le> rndTarget e' \<and> rndTarget e' < 1
               \<and> (\<exists>p. generatePacket e' ns ls = Inr (Some p)
                      \<and> sourceId p = nid (ns ! k) \<and> targetId p = nid tn)"
    using r by blast
qed


subsection \<open>The example network\<close>

lemma dist_lt_iff: "0 < r \<Longrightarrow> dist_nodes n1 n2 < r \<longleftrightarrow> (nx n2 - nx n1)\<^sup>2 + (ny n2 - ny n1)\<^sup>2 < r\<^sup>2"
  unfolding dist_nodes_def
  by (metis real_sqrt_less_iff real_sqrt_abs abs_of_pos)

lemma net_xy:
  "nx (newNode drawsNet i) = fst (drawsNet i) * 800"
  "ny (newNode drawsNet i) = fst (snd (drawsNet i)) * 500"
  "vx (newNode drawsNet i) = 0" "vy (newNode drawsNet i) = 0"
  by (simp_all add: newNode_def drawsNet_def WIDTH_def HEIGHT_def Let_def split: prod.splits)

lemma net_coords:
  "nx (newNode drawsNet 0) = 100" "ny (newNode drawsNet 0) = 100"
  "nx (newNode drawsNet (Suc 0)) = 240" "ny (newNode drawsNet (Suc 0)) = 20"
  "nx (newNode drawsNet 2) = 100" "ny (newNode drawsNet 2) = 169"
  "nx (newNode drawsNet 3) = 100" "ny (newNode drawsNet 3) = 169"
  "nx (newNode drawsNet 4) = 100" "ny (newNode drawsNet 4) = 400"
  "nx (newNode drawsNet 5) = 103" "ny (newNode drawsNet 5) = 404"
  "nx (newNode drawsNet 6) = 360" "ny (newNode drawsNet 6) = 20"
  "nx (newNode drawsNet 7) = 480" "ny (newNode drawsNet 7) = 20"
  "nx (newNode drawsNet 8) = 600" "ny (newNode drawsNet 8) = 20"
  "nx (newNode drawsNet 9) = 720" "ny (newNode drawsNet 9) = 20"
  "nx (newNode drawsNet 10) = 240" "ny (newNode drawsNet 10) = 80"
  "nx (newNode drawsNet 11) = 360" "ny (newNode drawsNet 11) = 80"
  "nx (newNode drawsNet 12) = 480" "ny (newNode drawsNet 12) = 80"
  "nx (newNode drawsNet 13) = 600" "ny (newNode drawsNet 13) = 80"
  "nx (newNode drawsNet 14) = 720" "ny (newNode drawsNet 14) = 80"
  "nx (newNode drawsNet 15) = 240" "ny (newNode drawsNet 15) = 140"
  "nx (newNode drawsNet 16) = 360" "ny (newNode drawsNet 16) = 140"
  "nx (newNode drawsNet 17) = 480" "ny (newNode drawsNet 17) = 140"
  "nx (newNode drawsNet 18) = 600" "ny (newNode drawsNet 18) = 140"
  "nx (newNode drawsNet 19) = 720" "ny (newNode drawsNet 19) = 140"
  "nx (newNode drawsNet 20) = 240" "ny (newNode drawsNet 20) = 200"
  "nx (newNode drawsNet 21) = 360" "ny (newNode drawsNet 21) = 200"
  "nx (newNode drawsNet 22) = 480" "ny (newNode drawsNet 22) = 200"
  "nx (newNode drawsNet 23) = 600" "ny (newNode drawsNet 23) = 200"
  "nx (newNode drawsNet 24) = 720" "ny (newNode drawsNet 24) = 200"
  "nx (newNode drawsNet 25) = 240" "ny (newNode drawsNet 25) = 260"
  "nx (newNode drawsNet 26) = 360" "ny (newNode drawsNet 26) = 260"
  "nx (newNode drawsNet 27) = 480" "ny (newNode drawsNet 27) = 260"
  "nx (newNode drawsNet 28) = 600" "ny (newNode drawsNet 28) = 260"
  "nx (newNode drawsNet 29) = 720" "ny (newNode drawsNet 29) = 260"
  "nx (newNode drawsNet 30) = 240" "ny (newNode drawsNet 30) = 320"
  "nx (newNode drawsNet 31) = 360" "ny (newNode drawsNet 31) = 320"
  "nx (newNode drawsNet 32) = 480" "ny (newNode drawsNet 32) = 320"
  "nx (newNode drawsNet 33) = 600" "ny (newNode drawsNet 33) = 320"
  "nx (newNode drawsNet 34) = 720" "ny (newNode drawsNet 34) = 320"
  "nx (newNode drawsNet 35) = 240" "ny (newNode drawsNet 35) = 380"
  "nx (newNode drawsNet 36) = 360" "ny (newNode drawsNet 36) = 380"
  "nx (newNode drawsNet 37) = 480" "ny (newNode drawsNet 37) = 380"
  "nx (newNode drawsNet 38) = 600" "ny (newNode drawsNet 38) = 380"
  "nx (newNode drawsNet 39) = 720" "ny (newNode drawsNet 39) = 380"
  by (simp_all add: net_xy drawsNet_def)

lemma net_static: "moveNode (newNode drawsNet i) = newNode drawsNet i"
  by (simp add: moveNode_def Let_def net_xy)

lemma incident_constant:
  "filter (\<lambda>l. source l = 2 \<or> target l = 2) linksConstant
   = [mkLink True 1 (Some (newNode drawsNet 0)) CONSTANT (newNode drawsNet 0) (newNode drawsNet 2),
      mkLink True 1 (Some (newNode drawsNet 0)) CONSTANT (newNode drawsNet 2) (newNode drawsNet 3)]"
  unfolding linksConstant_def nodesNet_def upt40
  by (simp add: dist_lt_iff MAX_RANGE_def net_coords newNode_simps mkLink_def)


lemma find_filter: "(\<And>x. P x \<Longrightarrow> A x) \<Longrightarrow> find P (filter A xs) = find P xs"
  by (induction xs) auto

lemma neighbors_incident:
  "neighborsOf src ls =
     map (\<lambda>l. if source l = nid src then target l else source l)
         (filter (\<lambda>l. quality l > 0.1) (filter (\<lambda>l. source l = nid src \<or> target l = nid src) ls))"
  by (simp add: neighborsOf_def)

lemma findLink_incident:
  "findLink p ls = findLink p (filter (\<lambda>l. source l = sourceId p \<or> target l = sourceId p) ls)"
  unfolding findLink_def by (rule find_filter[symmetric]) auto

lemma net_find:
  assumes "k < 40"
  shows "find (\<lambda>n. nid n = k) nodesNet = Some (newNode drawsNet k)"
proof -
  have "\<exists>i<length nodesNet. nid (nodesNet ! i) = k \<and> newNode drawsNet k = nodesNet ! i
          \<and> (\<forall>j<i. \<not> nid (nodesNet ! j) = k)"
    using assms by (intro exI[of _ k]) (simp add: nodesNet_def newNode_simps)
  then show ?thesis by (simp add: find_Some_iff)
qed

lemma net_at: "k < 40 \<Longrightarrow> at_index nodesNet (int k) = Some (newNode drawsNet k)"
  by (simp add: at_index_def nodesNet_def)

lemma net_jammer: "find isJammer nodesNet = Some (newNode drawsNet 0)"
  using find_jammer_init[of drawsNet] by (simp add: initializeNodes_def NODE_COUNT_def nodesNet_def)

lemma net_moved: "map moveNode nodesNet = nodesNet"
  by (simp add: nodesNet_def net_static)

lemma net_cleared: "clearTargets nodesNet = nodesNet"
proof -
  have "\<And>i. newNode drawsNet i\<lparr>isTarget := False\<rparr> = newNode drawsNet i"
    by (simp add: newNode_def split: prod.splits)
  then show ?thesis by (simp add: clearTargets_def nodesNet_def)
qed

lemma simNet_state: "netState simNet NONE [] 0 0 0 0"
  by (simp add: netState_def simNet_def toggleSimulation_def initialSim_def initializeNodes_def
      NODE_COUNT_def nodesNet_def)

lemma simConstant_state: "netState simConstant CONSTANT [] 0 0 0 0"
  using simNet_state by (simp add: netState_def simConstant_def setAttackType_def)

lemma net_attack_none:
  assumes "nodesRef s = nodesNet" "attackType s = NONE"
  shows "currentNodes e s = nodesNet" "newLinks e s = linksNone" "\<not> jammingActive e s"
proof -
  have a: "attackResult e s = (False, 0, nodesNet, randomAttackStateRef s)"
    using assms by (simp add: attackResult_def determineAttack_def net_jammer net_moved net_cleared)
  show "currentNodes e s = nodesNet" "\<not> jammingActive e s"
    by (simp_all add: currentNodes_def jammingActive_def a)
  then show "newLinks e s = linksNone"
    using assms by (simp add: newLinks_def jammingPower_def a net_jammer linksNone_def)
qed

lemma net_attack_constant:
  assumes "nodesRef s = nodesNet" "attackType s = CONSTANT"
  shows "currentNodes e s = nodesNet" "newLinks e s = linksConstant"
proof -
  have a: "attackResult e s = (True, 1, nodesNet, randomAttackStateRef s)"
    using assms by (simp add: attackResult_def determineAttack_def net_jammer net_moved)
  show "currentNodes e s = nodesNet"
    by (simp add: currentNodes_def a)
  then show "newLinks e s = linksConstant"
    using assms by (simp add: newLinks_def jammingActive_def jammingPower_def a net_jammer
        linksConstant_def)
qed

lemma tick_by_traffic:
  assumes "isRunning s" "traffic e (currentNodes e s) (newLinks e s) s = Inr s1"
  shows "updateSimulation e s =
           Inr ((logStep e (jammingActive e s) (jammingPower e s) (avgQuality (newLinks e s))
                   (s1\<lparr>randomAttackStateRef := snd (snd (snd (attackResult e s)))\<rparr>))
                \<lparr>nodesRef := currentNodes e s, links := newLinks e s, frameRef := rafHandle e\<rparr>)"
  using assms by (simp add: updateSimulation_def)

lemma tick_emits:
  assumes "isRunning s" "traffic e (currentNodes e s) (newLinks e s) s = Inr s1"
    "now e - lastLogTimeRef s > LOG_INTERVAL"
  shows "\<exists>s'. updateSimulation e s = Inr s'
           \<and> isRunning s' \<and> attackType s' = attackType s \<and> nodesRef s' = currentNodes e s
           \<and> packetsRef s' = packetsRef s1 \<and> packetsSentRef s' = 0
           \<and> packetsDeliveredRef s' = 0 \<and> packetsLostRef s' = 0 \<and> lastLogTimeRef s' = now e
           \<and> fullDatasetRef s' = fullDatasetRef s @
                [makeLog (now e) (attackType s) (packetsSentRef s1) (packetsDeliveredRef s1)
                   (packetsLostRef s1) (latencyAccumulatorRef s1) (accumulatedEnergyRef s)
                   (jammingActive e s) (avgQuality (newLinks e s)) (jammingPower e s)]"
proof -
  note f = traffic_frame[OF assms(2)]
  let ?s1 = "s1\<lparr>randomAttackStateRef := snd (snd (snd (attackResult e s)))\<rparr>"
  have g: "now e - lastLogTimeRef ?s1 > LOG_INTERVAL" using assms(3) by (simp add: f)
  show ?thesis
    unfolding tick_by_traffic[OF assms(1,2)]
    using assms(1) by (simp add: logStep_emit[OF g] logStep_frame f)
qed

lemma tick_skips:
  assumes "isRunning s" "traffic e (currentNodes e s) (newLinks e s) s = Inr s1"
    "\<not> now e - lastLogTimeRef s > LOG_INTERVAL"
  shows "\<exists>s'. updateSimulation e s = Inr s'
           \<and> isRunning s' \<and> attackType s' = attackType s \<and> nodesRef s' = currentNodes e s
           \<and> packetsRef s' = packetsRef s1 \<and> packetsSentRef s' = packetsSentRef s1
           \<and> packetsDeliveredRef s' = packetsDeliveredRef s1
           \<and> packetsLostRef s' = packetsLostRef s1 \<and> lastLogTimeRef s' = lastLogTimeRef s
           \<and> fullDatasetRef s' = fullDatasetRef s"
proof -
  note f = traffic_frame[OF assms(2)]
  let ?s1 = "s1\<lparr>randomAttackStateRef := snd (snd (snd (attackResult e s)))\<rparr>"
  have g: "\<not> now e - lastLogTimeRef ?s1 > LOG_INTERVAL" using assms(3) by (simp add: f)
  show ?thesis
    unfolding tick_by_traffic[OF assms(1,2)]
    using assms(1) by (simp add: logStep_skip[OF g] f)
qed


subsection \<open>Packets between nodes 4 and 5, without jamming\<close>

lemma incident_none:
  "filter (\<lambda>l. source l = 4 \<or> target l = 4) linksNone
   = [mkLink False 0 (Some (newNode drawsNet 0)) NONE (newNode drawsNet 4) (newNode drawsNet 5)]"
  unfolding linksNone_def nodesNet_def upt40
  by (simp add: dist_lt_iff MAX_RANGE_def net_coords newNode_simps mkLink_def)

lemma dist45: "dist_nodes (newNode drawsNet 4) (newNode drawsNet 5) = 5"
proof -
  have "sqrt 25 = 5" by (rule real_sqrt_unique) simp_all
  then show ?thesis by (simp add: dist_nodes_def net_coords)
qed

lemma q45:
  "linkQuality False 0 (Some (newNode drawsNet 0)) NONE (newNode drawsNet 4) (newNode drawsNet 5)
   = 23/24"
  by (simp add: linkQuality_def dist45 MAX_RANGE_def)

lemma net_at4: "at_index nodesNet 4 = Some (newNode drawsNet 4)"
  using net_at[of 4] by simp

lemma gen45:
  "generatePacket (sendEnv t h (1/10) rl) nodesNet linksNone = Inr (Some (pkt 4 5 100 400 0 t))"
proof -
  have n: "neighborsOf (newNode drawsNet 4) linksNone = [5]"
    by (simp add: neighbors_incident newNode_simps incident_none mkLink_def q45)
  have l: "length nodesNet = 40" by (simp add: nodesNet_def)
  have f: "at_index [5::nat] 0 = Some 5" by (simp add: at_index_def)
  show ?thesis
    by (simp add: generatePacket_def sendEnv_def l net_at4 newNode_simps n f net_find
        net_coords pkt_def)
qed

lemma pkt_sel:
  "sourceId (pkt a b x y g t) = a" "targetId (pkt a b x y g t) = b"
  "delivered (pkt a b x y g t) = False" "lost (pkt a b x y g t) = False"
  "progress (pkt a b x y g t) = Fin g" "createdAt (pkt a b x y g t) = t"
  by (simp_all add: pkt_def)

lemma adv45:
  "advancePacket e nodesNet linksNone i (pkt 4 5 x y g t)
   = movement e i (pkt 4 5 x y g t) (newNode drawsNet 4) (newNode drawsNet 5)"
proof -
  have "findLink (pkt 4 5 x y g t) linksNone = Some \<lparr>source = 4, target = 5, quality = 23/24\<rparr>"
    by (subst findLink_incident)
      (simp add: pkt_sel incident_none findLink_def mkLink_def newNode_simps q45)
  then show ?thesis
    by (simp add: advancePacket_def pkt_sel net_find)
qed

lemma mov45:
  "movement e i (pkt 4 5 x y g t) (newNode drawsNet 4) (newNode drawsNet 5)
   = (if 1 \<le> g + 3/5
      then ((pkt 4 5 103 404 1 t)\<lparr>delivered := True\<rparr>, DeliveredEvent (nowDelivered e i - t))
      else (pkt 4 5 (100 + 3 * (g + 3/5)) (400 + 4 * (g + 3/5)) (g + 3/5) t, NoEvent))"
  by (simp add: movement_def dist45 PACKET_SPEED_def jge_def pkt_def net_coords Let_def)

lemma sendEnv_sel: "now (sendEnv t h rs rl) = t" "rndGen (sendEnv t h rs rl) = 0"
  "rafHandle (sendEnv t h rs rl) = h" "nowDelivered (sendEnv t h rs rl) i = t"
  "rndLoss (sendEnv t h rs rl) i = rl"
  by (simp_all add: sendEnv_def)

lemma quietEnv_delivered: "nowDelivered (quietEnv t h) i = t"
  by (simp add: quietEnv_def)

lemma pair_tick1:
  assumes "netState s NONE [] 0 0 0 0"
  shows "\<exists>s'. updateSimulation (sendEnv 1000 2 (1/10) (1/2)) s = Inr s'
           \<and> netState s' NONE [pkt 4 5 (509/5) (2012/5) (3/5) 1000] 0 0 0 1000"
proof -
  let ?e = "sendEnv 1000 2 (1/10) (1/2)"
  have s: "isRunning s" "nodesRef s = nodesNet" "attackType s = NONE" "packetsRef s = []"
    "lastLogTimeRef s = 0"
    using assms by (simp_all add: netState_def)
  note a = net_attack_none[OF s(2,3), of ?e]
  have t: "traffic ?e (currentNodes ?e s) (newLinks ?e s) s
           = Inr (s\<lparr>packetsRef := [pkt 4 5 (509/5) (2012/5) (3/5) 1000],
                    packetsSentRef := packetsSentRef s + 1,
                    packetsDeliveredRef := packetsDeliveredRef s + 0,
                    packetsLostRef := packetsLostRef s + 0,
                    latencyAccumulatorRef := latencyAccumulatorRef s @ []\<rparr>)"
    unfolding a by (simp add: traffic_def gen45 s(4) advanceAll_def adv45 mov45) (simp add: pkt_def)
  have g: "now ?e - lastLogTimeRef s > LOG_INTERVAL"
    by (simp add: sendEnv_def s LOG_INTERVAL_def)
  from tick_emits[OF s(1) t g] show ?thesis
    by (auto simp: netState_def s a sendEnv_sel)
qed


lemma pair_tick2:
  assumes "netState s NONE [pkt 4 5 (509/5) (2012/5) (3/5) 1000] 0 0 0 1000"
  shows "\<exists>s'. updateSimulation (sendEnv 1016 3 (1/10) (1/2)) s = Inr s'
           \<and> netState s' NONE [pkt 4 5 (509/5) (2012/5) (3/5) 1016] 1 1 0 1000
           \<and> fullDatasetRef s' = fullDatasetRef s"
proof -
  let ?e = "sendEnv 1016 3 (1/10) (1/2)"
  have s: "isRunning s" "nodesRef s = nodesNet" "attackType s = NONE"
    "packetsRef s = [pkt 4 5 (509/5) (2012/5) (3/5) 1000]" "lastLogTimeRef s = 1000"
    "packetsSentRef s = 0" "packetsDeliveredRef s = 0" "packetsLostRef s = 0"
    using assms by (simp_all add: netState_def)
  note a = net_attack_none[OF s(2,3), of ?e]
  have t: "traffic ?e (currentNodes ?e s) (newLinks ?e s) s
           = Inr (s\<lparr>packetsRef := [pkt 4 5 (509/5) (2012/5) (3/5) 1016],
                    packetsSentRef := 1, packetsDeliveredRef := 1, packetsLostRef := 0,
                    latencyAccumulatorRef := latencyAccumulatorRef s @ [16]\<rparr>)"
    unfolding a
    by (simp add: traffic_def gen45 s advanceAll_def adv45 mov45 sendEnv_sel) (simp add: pkt_def)
  have g: "\<not> now ?e - lastLogTimeRef s > LOG_INTERVAL"
    by (simp add: sendEnv_def s LOG_INTERVAL_def)
  from tick_skips[OF s(1) t g] show ?thesis
    by (auto simp: netState_def s a sendEnv_sel)
qed

lemma pair_tick3:
  assumes "netState s NONE [pkt 4 5 (509/5) (2012/5) (3/5) 1016] 1 1 0 1000"
  shows "\<exists>s' r. updateSimulation (quietEnv 1600 4) s = Inr s'
           \<and> fullDatasetRef s' = fullDatasetRef s @ [r] \<and> pdr r = 2"
proof -
  let ?e = "quietEnv 1600 4"
  have s: "isRunning s" "nodesRef s = nodesNet" "attackType s = NONE"
    "packetsRef s = [pkt 4 5 (509/5) (2012/5) (3/5) 1016]" "lastLogTimeRef s = 1000"
    "packetsSentRef s = 1" "packetsDeliveredRef s = 1" "packetsLostRef s = 0"
    using assms by (simp_all add: netState_def)
  note a = net_attack_none[OF s(2,3), of ?e]
  have q: "\<not> rndGen ?e < 0.15" by (simp add: quietEnv_simps)
  have t: "traffic ?e (currentNodes ?e s) (newLinks ?e s) s
           = Inr (s\<lparr>packetsRef := [], packetsSentRef := 1, packetsDeliveredRef := 2,
                    packetsLostRef := 0,
                    latencyAccumulatorRef := latencyAccumulatorRef s @ [584]\<rparr>)"
    unfolding a
    by (simp add: traffic_def generate_quiet[OF q] s advanceAll_def adv45 mov45
        quietEnv_delivered)
  have g: "now ?e - lastLogTimeRef s > LOG_INTERVAL"
    by (simp add: quietEnv_simps s LOG_INTERVAL_def)
  have "round ((20000 / 10001 :: real) * 10 ^ 3) = 2000"
    by (rule round_unique) simp_all
  then have p: "toFixed 3 (20000 / 10001) = 2"
    by (simp add: toFixed_pos)
  from tick_emits[OF s(1) t g] show ?thesis
    by (auto simp: makeLog_def Let_def p)
qed

theorem progress_never_decreases_witness:
  "list_all inFlight (packetsRef simNet)
   \<and> (case run [sendEnv 1000 2 (1/10) (1/2)] simNet of
        Inl err \<Rightarrow> False
      | Inr s \<Rightarrow>
          packetsRef s = [pkt 4 5 (509/5) (2012/5) (3/5) 1000]
          \<and> advancePacket (sendEnv 1016 3 (1/10) (1/2))
                (currentNodes (sendEnv 1016 3 (1/10) (1/2)) s)
                (newLinks (sendEnv 1016 3 (1/10) (1/2)) s) 0 (packetsRef s ! 0)
              = ((pkt 4 5 103 404 1 1000)\<lparr>delivered := True\<rparr>, DeliveredEvent 16)
          \<and> jle (Fin (3/5))
                (progress (fst (advancePacket (sendEnv 1016 3 (1/10) (1/2))
                   (currentNodes (sendEnv 1016 3 (1/10) (1/2)) s)
                   (newLinks (sendEnv 1016 3 (1/10) (1/2)) s) 0 (packetsRef s ! 0))))
          \<and> (case updateSimulation (sendEnv 1016 3 (1/10) (1/2)) s of
                Inl err \<Rightarrow> False
              | Inr s' \<Rightarrow>
                  list_all inFlight (packetsRef s) \<and> list_all inFlight (packetsRef s')
                  \<and> packetsRef s' = [pkt 4 5 (509/5) (2012/5) (3/5) 1016]))"
proof -
  let ?e = "sendEnv 1016 3 (1/10) (1/2)"
  have p0: "list_all inFlight (packetsRef simNet)"
    using simNet_state by (simp add: netState_def)
  from pair_tick1[OF simNet_state] obtain s1 where
    t1: "updateSimulation (sendEnv 1000 2 (1/10) (1/2)) simNet = Inr s1"
    and n1: "netState s1 NONE [pkt 4 5 (509/5) (2012/5) (3/5) 1000] 0 0 0 1000" by blast
  from pair_tick2[OF n1] obtain s2 where
    t2: "updateSimulation ?e s1 = Inr s2"
    and n2: "netState s2 NONE [pkt 4 5 (509/5) (2012/5) (3/5) 1016] 1 1 0 1000" by blast
  have r: "run [sendEnv 1000 2 (1/10) (1/2)] simNet = Inr s1" by (simp add: t1)
  have s: "nodesRef s1 = nodesNet" "attackType s1 = NONE"
    "packetsRef s1 = [pkt 4 5 (509/5) (2012/5) (3/5) 1000]"
    using n1 by (simp_all add: netState_def)
  note a = net_attack_none[OF s(1,2), of ?e]
  have adv: "advancePacket ?e (currentNodes ?e s1) (newLinks ?e s1) 0 (packetsRef s1 ! 0)
             = ((pkt 4 5 103 404 1 1000)\<lparr>delivered := True\<rparr>, DeliveredEvent 16)"
    unfolding a s by (simp add: adv45 mov45 sendEnv_sel)
  note th = progress_never_decreases[OF p0 r t2]
  from th have io: "list_all inFlight (packetsRef s1) \<and> list_all inFlight (packetsRef s2)"
    by blast
  from th have "\<forall>i < length (packetsRef s1).
      jle (progress (packetsRef s1 ! i))
          (progress (fst (advancePacket ?e (currentNodes ?e s1) (newLinks ?e s1) i (packetsRef s1 ! i))))"
    by blast
  then have "jle (progress (packetsRef s1 ! 0))
          (progress (fst (advancePacket ?e (currentNodes ?e s1) (newLinks ?e s1) 0 (packetsRef s1 ! 0))))"
    by (simp add: s(3))
  then have mono: "jle (Fin (3/5))
          (progress (fst (advancePacket ?e (currentNodes ?e s1) (newLinks ?e s1) 0 (packetsRef s1 ! 0))))"
    by (simp add: s(3) pkt_sel)
  show ?thesis
    unfolding r sum.case t2 using p0 n1 n2 io adv mono by (simp add: netState_def)
qed

text \<open>
  Claim C2: in every emitted record \<open>pdr\<close> and \<open>plr\<close> lie in \<open>[0, 1]\<close>. The program says
  the same of its fields (types.ts: \<open>plr\<close> is the ``Packet Loss Rate (1 - PDR)''; the
  metrics panel plots \<open>pdr\<close> on the axis from 0 to 1), but it divides the deliveries of a
  window by the packets sent in that window, and a packet sent in one window can be
  delivered in the next. Evaluated from creation, without jamming: the first tick sends a
  packet from node 4 to node 5 and emits a record, which resets the counters; the second
  tick sends another and delivers the first; the third delivers the second and emits a
  record with one packet sent and two delivered. The claim bounds \<open>pdr\<close> by 1; the code
  emits \<open>pdr = 2 / 1.0001\<close>, rounded to 2.
\<close>

theorem delivery_ratio_exceeds_one:
  "case run [sendEnv 1000 2 (1/10) (1/2), sendEnv 1016 3 (1/10) (1/2), quietEnv 1600 4] simNet of
     Inl err \<Rightarrow> False
   | Inr s \<Rightarrow> fullDatasetRef s \<noteq> [] \<and> pdr (last (fullDatasetRef s)) = 2"
proof -
  from pair_tick1[OF simNet_state] obtain s1 where
    t1: "updateSimulation (sendEnv 1000 2 (1/10) (1/2)) simNet = Inr s1"
    and n1: "netState s1 NONE [pkt 4 5 (509/5) (2012/5) (3/5) 1000] 0 0 0 1000" by blast
  from pair_tick2[OF n1] obtain s2 where
    t2: "updateSimulation (sendEnv 1016 3 (1/10) (1/2)) s1 = Inr s2"
    and n2: "netState s2 NONE [pkt 4 5 (509/5) (2012/5) (3/5) 1016] 1 1 0 1000" by blast
  from pair_tick3[OF n2] obtain s3 r where
    t3: "updateSimulation (quietEnv 1600 4) s2 = Inr s3"
    and r: "fullDatasetRef s3 = fullDatasetRef s2 @ [r]" "pdr r = 2" by blast
  have "run [sendEnv 1000 2 (1/10) (1/2), sendEnv 1016 3 (1/10) (1/2), quietEnv 1600 4] simNet
        = Inr s3"
    by (simp add: t1 t2 t3)
  then show ?thesis using r by simp
qed


subsection \<open>Metrics: the ratios\<close>

lemma toFixed_nonneg: "0 \<le> v \<Longrightarrow> 0 \<le> toFixed d v"
proof -
  assume "0 \<le> v"
  then have "0 \<le> v * 10 ^ d" by simp
  then have "round (0::real) \<le> round (v * 10 ^ d)" by (rule round_mono)
  then show ?thesis using \<open>0 \<le> v\<close> by (simp add: toFixed_pos)
qed

lemma round_pow10: "round ((10::real) ^ d) = 10 ^ d"
proof -
  have "(10::real) ^ d = of_int (10 ^ d)" by simp
  then show ?thesis by (simp only: round_of_int)
qed

lemma toFixed_le_one: "v \<le> 1 \<Longrightarrow> toFixed d v \<le> 1"
proof (cases "v < 0")
  case True
  then have "0 \<le> (- v) * 10 ^ d" by (intro mult_nonneg_nonneg) simp_all
  then have "round (0::real) \<le> round (- v * 10 ^ d)" by (rule round_mono)
  then have "0 \<le> real_of_int (round (- v * 10 ^ d)) / 10 ^ d" by simp
  then have "toFixed d v \<le> 0" using True by (simp add: toFixed_def)
  then show ?thesis by simp
next
  case False
  assume "v \<le> 1"
  then have "v * 10 ^ d \<le> 10 ^ d" by simp
  then have "round (v * 10 ^ d) \<le> round ((10::real) ^ d)" by (rule round_mono)
  then have "round (v * 10 ^ d) \<le> 10 ^ d" by (simp only: round_pow10)
  then have "real_of_int (round (v * 10 ^ d)) \<le> real_of_int (10 ^ d)"
    by (simp only: of_int_le_iff)
  then have "real_of_int (round (v * 10 ^ d)) \<le> 10 ^ d" by simp
  then show ?thesis using False by (simp add: toFixed_pos divide_le_eq_1_pos)
qed

lemma toFixed_zero_one: "toFixed d 0 = 0" "toFixed d 1 = 1"
  by (simp_all add: toFixed_pos round_pow10)

lemma ratio_le_one: "a \<le> b \<Longrightarrow> real a / (real b + 1/10000) \<le> 1"
proof -
  assume "a \<le> b"
  then have "real a \<le> real b + 1/10000" by simp
  moreover have "0 < real b + 1/10000" by (simp add: add_nonneg_pos)
  ultimately show ?thesis by (simp only: divide_le_eq_1_pos)
qed


lemma makeLog_ratios:
  "pdr (makeLog ts k sn dl ls lats acc a q p)
     = toFixed 3 (if sn = 0 then 1 else real dl / (real sn + 1/10000))"
  "plr (makeLog ts k sn dl ls lats acc a q p)
     = toFixed 3 (if sn = 0 then 0 else real ls / (real sn + 1/10000))"
  by (simp_all add: makeLog_def Let_def)

lemma ratio_arg:
  "0 \<le> (if sn = 0 then 1 else real dl / (real sn + 1/10000))"
  "0 \<le> (if sn = 0 then 0 else real dl / (real sn + 1/10000))"
  "dl \<le> sn \<Longrightarrow> (if sn = 0 then 1 else real dl / (real sn + 1/10000)) \<le> 1"
  "dl \<le> sn \<Longrightarrow> (if sn = 0 then 0 else real dl / (real sn + 1/10000)) \<le> 1"
proof -
  have nn: "0 \<le> real dl / (real sn + 1/10000)" by simp
  show "0 \<le> (if sn = 0 then 1 else real dl / (real sn + 1/10000))"
    using nn by simp
  show "0 \<le> (if sn = 0 then 0 else real dl / (real sn + 1/10000))"
    using nn by simp
  assume "dl \<le> sn"
  then have le: "real dl / (real sn + 1/10000) \<le> 1" by (rule ratio_le_one)
  show "(if sn = 0 then 1 else real dl / (real sn + 1/10000)) \<le> 1"
    using le by simp
  show "(if sn = 0 then 0 else real dl / (real sn + 1/10000)) \<le> 1"
    using le by simp
qed

lemma ratio_bounds:
  "0 \<le> toFixed 3 (if sn = 0 then 1 else real dl / (real sn + 1/10000))"
  "sn = 0 \<Longrightarrow> toFixed 3 (if sn = 0 then 1 else real dl / (real sn + 1/10000)) = 1"
  "dl \<le> sn \<Longrightarrow> toFixed 3 (if sn = 0 then 1 else real dl / (real sn + 1/10000)) \<le> 1"
  "0 \<le> toFixed 3 (if sn = 0 then 0 else real dl / (real sn + 1/10000))"
  "sn = 0 \<Longrightarrow> toFixed 3 (if sn = 0 then 0 else real dl / (real sn + 1/10000)) = 0"
  "dl \<le> sn \<Longrightarrow> toFixed 3 (if sn = 0 then 0 else real dl / (real sn + 1/10000)) \<le> 1"
proof -
  show "0 \<le> toFixed 3 (if sn = 0 then 1 else real dl / (real sn + 1/10000))"
    by (rule toFixed_nonneg) (rule ratio_arg)
  show "0 \<le> toFixed 3 (if sn = 0 then 0 else real dl / (real sn + 1/10000))"
    by (rule toFixed_nonneg) (rule ratio_arg)
  show "sn = 0 \<Longrightarrow> toFixed 3 (if sn = 0 then 1 else real dl / (real sn + 1/10000)) = 1"
    by (simp add: toFixed_zero_one)
  show "sn = 0 \<Longrightarrow> toFixed 3 (if sn = 0 then 0 else real dl / (real sn + 1/10000)) = 0"
    by (simp add: toFixed_zero_one)
  show "dl \<le> sn \<Longrightarrow> toFixed 3 (if sn = 0 then 1 else real dl / (real sn + 1/10000)) \<le> 1"
    by (rule toFixed_le_one) (rule ratio_arg)
  show "dl \<le> sn \<Longrightarrow> toFixed 3 (if sn = 0 then 0 else real dl / (real sn + 1/10000)) \<le> 1"
    by (rule toFixed_le_one) (rule ratio_arg)
qed

text \<open>
  The ratios of an emitted record are \<open>delivered / (sent + 0.0001)\<close> and
  \<open>lost / (sent + 0.0001)\<close>, rounded to three decimals, of the counters as they stand
  when the tick has advanced its packets (the state \<open>w\<close>), and 1 and 0 when no packet
  was sent in the window. Neither is negative, and each is at most 1 in a window whose
  counter does not exceed the number of packets sent in it.
\<close>

lemma ratios_from_window_counters:
  assumes "isRunning s" and "updateSimulation e s = Inr s'"
    and "now e - lastLogTimeRef s > LOG_INTERVAL"
    and "traffic e (currentNodes e s) (newLinks e s) s = Inr w"
  shows "\<exists>r. fullDatasetRef s' = fullDatasetRef s @ [r]
           \<and> pdr r = toFixed 3 (if packetsSentRef w = 0 then 1
                                 else real (packetsDeliveredRef w) / (real (packetsSentRef w) + 1/10000))
           \<and> plr r = toFixed 3 (if packetsSentRef w = 0 then 0
                                 else real (packetsLostRef w) / (real (packetsSentRef w) + 1/10000))
           \<and> 0 \<le> pdr r \<and> 0 \<le> plr r
           \<and> (packetsSentRef w = 0 \<longrightarrow> pdr r = 1 \<and> plr r = 0)
           \<and> (packetsDeliveredRef w \<le> packetsSentRef w \<longrightarrow> pdr r \<le> 1)
           \<and> (packetsLostRef w \<le> packetsSentRef w \<longrightarrow> plr r \<le> 1)"
proof -
  let ?r = "makeLog (now e) (attackType s) (packetsSentRef w) (packetsDeliveredRef w)
              (packetsLostRef w) (latencyAccumulatorRef w) (accumulatedEnergyRef s)
              (jammingActive e s) (avgQuality (newLinks e s)) (jammingPower e s)"
  from tick_emits[OF assms(1,4,3)] assms(2)
  have f: "fullDatasetRef s' = fullDatasetRef s @ [?r]" by auto
  show ?thesis
    by (rule exI[of _ ?r], unfold makeLog_ratios, intro conjI impI f refl ratio_bounds)
qed


lemma ratios_from_window_counters_example:
  "isRunning simNet \<and> now (sendEnv 1000 2 (1/10) (1/2)) - lastLogTimeRef simNet > LOG_INTERVAL
   \<and> (case traffic (sendEnv 1000 2 (1/10) (1/2)) (currentNodes (sendEnv 1000 2 (1/10) (1/2)) simNet)
               (newLinks (sendEnv 1000 2 (1/10) (1/2)) simNet) simNet of
        Inl err \<Rightarrow> False
      | Inr w \<Rightarrow>
          packetsSentRef w = 1 \<and> packetsDeliveredRef w = 0
          \<and> (case updateSimulation (sendEnv 1000 2 (1/10) (1/2)) simNet of
                Inl err \<Rightarrow> False
              | Inr s' \<Rightarrow> fullDatasetRef s' \<noteq> [] \<and> pdr (last (fullDatasetRef s')) = 0))"
proof -
  let ?e = "sendEnv 1000 2 (1/10) (1/2)"
  have s: "isRunning simNet" "nodesRef simNet = nodesNet" "attackType simNet = NONE"
    "packetsRef simNet = []" "lastLogTimeRef simNet = 0" "packetsSentRef simNet = 0"
    "packetsDeliveredRef simNet = 0"
    using simNet_state by (simp_all add: netState_def)
  note a = net_attack_none[OF s(2,3), of ?e]
  have t: "traffic ?e (currentNodes ?e simNet) (newLinks ?e simNet) simNet
           = Inr (simNet\<lparr>packetsRef := [pkt 4 5 (509/5) (2012/5) (3/5) 1000],
                    packetsSentRef := 1, packetsDeliveredRef := 0,
                    packetsLostRef := packetsLostRef simNet + 0,
                    latencyAccumulatorRef := latencyAccumulatorRef simNet @ []\<rparr>)"
    unfolding a by (simp add: traffic_def gen45 s advanceAll_def adv45 mov45) (simp add: pkt_def)
  have g: "now ?e - lastLogTimeRef simNet > LOG_INTERVAL"
    by (simp add: sendEnv_sel s LOG_INTERVAL_def)
  obtain s' where u: "updateSimulation ?e simNet = Inr s'"
    using tick_emits[OF s(1) t g] by blast
  from ratios_from_window_counters[OF s(1) u g t] obtain r where
    "fullDatasetRef s' = fullDatasetRef simNet @ [r]" "pdr r = toFixed 3 0"
    by auto
  then show ?thesis
    unfolding t u sum.case using s(1) g by (simp add: toFixed_zero_one)
qed

subsection \<open>Packets between nodes 2 and 3, under Constant jamming\<close>

lemma dist_net:
  "dist_nodes (newNode drawsNet 0) (newNode drawsNet 0) = 0"
  "dist_nodes (newNode drawsNet 2) (newNode drawsNet 3) = 0"
  "dist_nodes (newNode drawsNet 0) (newNode drawsNet 2) = 69"
  "dist_nodes (newNode drawsNet 2) (newNode drawsNet 0) = 69"
  "dist_nodes (newNode drawsNet 3) (newNode drawsNet 0) = 69"
  by (simp_all add: dist_same_x net_coords)

lemma q_constant:
  "linkQuality True 1 (Some (newNode drawsNet 0)) CONSTANT (newNode drawsNet 0) (newNode drawsNet 2) = 0"
  "linkQuality True 1 (Some (newNode drawsNet 0)) CONSTANT (newNode drawsNet 2) (newNode drawsNet 3) = 3/20"
  by (simp_all add: linkQuality_def dist_net MAX_RANGE_def)

lemma net_at2: "at_index nodesNet 2 = Some (newNode drawsNet 2)"
  using net_at[of 2] by simp

lemma gen23:
  "generatePacket (sendEnv t h (1/20) rl) nodesNet linksConstant = Inr (Some (pkt 2 3 100 169 0 t))"
proof -
  have n: "neighborsOf (newNode drawsNet 2) linksConstant = [3]"
    by (simp add: neighbors_incident newNode_simps incident_constant mkLink_def q_constant)
  have l: "length nodesNet = 40" by (simp add: nodesNet_def)
  have f: "at_index [3::nat] 0 = Some 3" by (simp add: at_index_def)
  show ?thesis
    by (simp add: generatePacket_def sendEnv_def l net_at2 newNode_simps n f net_find
        net_coords pkt_def)
qed

lemma adv23:
  "advancePacket (sendEnv t h rs 0) nodesNet linksConstant i (pkt 2 3 x y g c)
   = ((pkt 2 3 x y g c)\<lparr>lost := True\<rparr>, LostEvent)"
proof -
  have "findLink (pkt 2 3 x y g c) linksConstant = Some \<lparr>source = 2, target = 3, quality = 3/20\<rparr>"
    by (subst findLink_incident)
      (simp add: pkt_sel incident_constant findLink_def mkLink_def newNode_simps q_constant)
  then show ?thesis
    by (simp add: advancePacket_def pkt_sel net_find sendEnv_sel)
qed

lemma constant_tick1:
  assumes "netState s CONSTANT [] 0 0 0 0"
  shows "\<exists>s'. updateSimulation (quietEnv 1000 3) s = Inr s' \<and> netState s' CONSTANT [] 0 0 0 1000"
proof -
  let ?e = "quietEnv 1000 3"
  have s: "isRunning s" "nodesRef s = nodesNet" "attackType s = CONSTANT" "packetsRef s = []"
    "lastLogTimeRef s = 0"
    using assms by (simp_all add: netState_def)
  note a = net_attack_constant[OF s(2,3), of ?e]
  have q: "\<not> rndGen ?e < 0.15" by (simp add: quietEnv_simps)
  have t: "traffic ?e (currentNodes ?e s) (newLinks ?e s) s
           = Inr (s\<lparr>packetsRef := [], packetsSentRef := packetsSentRef s + 0,
                    packetsDeliveredRef := packetsDeliveredRef s + 0,
                    packetsLostRef := packetsLostRef s + 0,
                    latencyAccumulatorRef := latencyAccumulatorRef s @ []\<rparr>)"
    unfolding a by (simp add: traffic_def generate_quiet[OF q] s advanceAll_def)
  have g: "now ?e - lastLogTimeRef s > LOG_INTERVAL"
    by (simp add: quietEnv_simps s LOG_INTERVAL_def)
  from tick_emits[OF s(1) t g] show ?thesis
    by (auto simp: netState_def s a quietEnv_simps)
qed

lemma constant_tick2:
  assumes "netState s CONSTANT [] 0 0 0 1000"
  shows "\<exists>s'. updateSimulation (sendEnv 1016 4 (1/20) 0) s = Inr s'
           \<and> netState s' CONSTANT [] 1 0 1 1000"
proof -
  let ?e = "sendEnv 1016 4 (1/20) 0"
  have s: "isRunning s" "nodesRef s = nodesNet" "attackType s = CONSTANT" "packetsRef s = []"
    "lastLogTimeRef s = 1000" "packetsSentRef s = 0" "packetsDeliveredRef s = 0"
    "packetsLostRef s = 0"
    using assms by (simp_all add: netState_def)
  note a = net_attack_constant[OF s(2,3), of ?e]
  have t: "traffic ?e (currentNodes ?e s) (newLinks ?e s) s
           = Inr (s\<lparr>packetsRef := [], packetsSentRef := 1, packetsDeliveredRef := 0,
                    packetsLostRef := 1,
                    latencyAccumulatorRef := latencyAccumulatorRef s @ []\<rparr>)"
    unfolding a by (simp add: traffic_def gen23 s advanceAll_def adv23)
  have g: "\<not> now ?e - lastLogTimeRef s > LOG_INTERVAL"
    by (simp add: sendEnv_sel s LOG_INTERVAL_def)
  from tick_skips[OF s(1) t g] show ?thesis
    by (auto simp: netState_def s a sendEnv_sel)
qed

text \<open>
  Claim C7, as stated: a packet whose source and target nodes coincide is delivered on
  that tick. Under Constant jamming, with nodes 2 and 3 both at (100, 169) and the jammer
  69 away, the link between them has quality \<open>1 - 2 * (1 - 69/120) = 0.15\<close>: above 0.1,
  so a packet is generated from 2 to 3, and at most 0.2, so the loss draw is made. With
  a draw below 0.15 the packet is marked lost before the movement is reached, and the
  tick counts one packet sent, one lost and none delivered.
\<close>

theorem coincident_endpoints_packet_lost:
  "generatePacket (sendEnv 1016 4 (1/20) 0) nodesNet linksConstant
     = Inr (Some (pkt 2 3 100 169 0 1016))
   \<and> find (\<lambda>n. nid n = 2) nodesNet = Some (newNode drawsNet 2)
   \<and> find (\<lambda>n. nid n = 3) nodesNet = Some (newNode drawsNet 3)
   \<and> dist_nodes (newNode drawsNet 2) (newNode drawsNet 3) = 0
   \<and> advancePacket (sendEnv 1016 4 (1/20) 0) nodesNet linksConstant 0 (pkt 2 3 100 169 0 1016)
       = ((pkt 2 3 100 169 0 1016)\<lparr>lost := True\<rparr>, LostEvent)
   \<and> (case run [quietEnv 1000 3, sendEnv 1016 4 (1/20) 0] simConstant of
        Inl err \<Rightarrow> False
      | Inr s \<Rightarrow> nodesRef s = nodesNet \<and> packetsRef s = [] \<and> packetsSentRef s = 1
                 \<and> packetsLostRef s = 1 \<and> packetsDeliveredRef s = 0)"
proof -
  from constant_tick1[OF simConstant_state] obtain s1 where
    t1: "updateSimulation (quietEnv 1000 3) simConstant = Inr s1"
    and n1: "netState s1 CONSTANT [] 0 0 0 1000" by blast
  from constant_tick2[OF n1] obtain s2 where
    t2: "updateSimulation (sendEnv 1016 4 (1/20) 0) s1 = Inr s2"
    and n2: "netState s2 CONSTANT [] 1 0 1 1000" by blast
  have r: "run [quietEnv 1000 3, sendEnv 1016 4 (1/20) 0] simConstant = Inr s2"
    by (simp add: t1 t2)
  show ?thesis
    unfolding r sum.case using n2 net_find[of 2] net_find[of 3]
    by (simp add: gen23 adv23 dist_net netState_def)
qed

lemma pkt_inFlight: "0 \<le> g \<Longrightarrow> g < 1 \<Longrightarrow> inFlight (pkt a b x y g t)"
  by (simp add: inFlight_def pkt_def)

theorem coincident_endpoints_deliver_unless_lost_witness:
  "inFlight (pkt 2 3 100 169 0 1016)
   \<and> find (\<lambda>n. nid n = sourceId (pkt 2 3 100 169 0 1016)) nodesNet = Some (newNode drawsNet 2)
   \<and> find (\<lambda>n. nid n = targetId (pkt 2 3 100 169 0 1016)) nodesNet = Some (newNode drawsNet 3)
   \<and> dist_nodes (newNode drawsNet 2) (newNode drawsNet 3) = 0
   \<and> advancePacket (sendEnv 1016 4 (1/20) (1/2)) nodesNet linksConstant 0 (pkt 2 3 100 169 0 1016)
       = ((pkt 2 3 100 169 0 1016)\<lparr>px := Fin 100, py := Fin 169, progress := Fin 1,
                                      delivered := True\<rparr>, DeliveredEvent 0)"
proof -
  have i: "inFlight (pkt 2 3 100 169 0 1016)" by (simp add: pkt_inFlight)
  have f: "find (\<lambda>n. nid n = sourceId (pkt 2 3 100 169 0 1016)) nodesNet = Some (newNode drawsNet 2)"
    "find (\<lambda>n. nid n = targetId (pkt 2 3 100 169 0 1016)) nodesNet = Some (newNode drawsNet 3)"
    using net_find[of 2] net_find[of 3] by (simp_all add: pkt_sel)
  from coincident_endpoints_deliver_unless_lost[OF i f dist_net(2),
      of "sendEnv 1016 4 (1/20) (1/2)" linksConstant 0 "[]"]
  show ?thesis using i f dist_net(2)
    by (simp add: sendEnv_sel net_coords pkt_sel)
qed

lemma net_ids: "map nid nodesNet = [0..<40]"
  by (simp add: nodesNet_def newNode_simps comp_def)

lemma net_nth: "k < 40 \<Longrightarrow> nodesNet ! k = newNode drawsNet k"
  by (simp add: nodesNet_def)

lemma net_link02: "\<lparr>source = 0, target = 2, quality = 17/40\<rparr> \<in> set linksNone"
proof -
  have q: "claimedQuality False 0 (Some (newNode drawsNet 0)) NONE
             (newNode drawsNet 0) (newNode drawsNet 2) = 17/40"
    by (simp add: claimedQuality_def dist_net)
  have n: "nodesNet ! 0 = newNode drawsNet 0" "nodesNet ! 2 = newNode drawsNet 2"
    "length nodesNet = 40"
    using net_nth[of 0] net_nth[of 2] by (simp_all add: nodesNet_def)
  have "\<lparr>source = nid (nodesNet ! 0), target = nid (nodesNet ! 2),
          quality = claimedQuality False 0 (Some (newNode drawsNet 0)) NONE
                      (nodesNet ! 0) (nodesNet ! 2)\<rparr>
        \<in> set (linksFor False 0 (Some (newNode drawsNet 0)) NONE nodesNet)"
    unfolding linksFor_set
    by (rule CollectI, rule exI[of _ 0], rule exI[of _ 2]) (simp only: n dist_net, simp)
  then show ?thesis
    by (simp only: n q newNode_simps linksNone_def computeLinks_linksFor)
qed

theorem packet_endpoints_witness:
  "distinct (map nid nodesNet)
   \<and> isJammer (newNode drawsNet 0) \<and> newNode drawsNet 0 \<in> set nodesNet
   \<and> \<not> isJammer (nodesNet ! 2)
   \<and> \<lparr>source = 0, target = 2, quality = 17/40\<rparr> \<in> set linksNone
   \<and> (\<exists>e'. 0 \<le> rndSource e' \<and> rndSource e' < 1 \<and> 0 \<le> rndTarget e' \<and> rndTarget e' < 1
         \<and> (\<exists>p. generatePacket e' nodesNet linksNone = Inr (Some p)
                \<and> sourceId p = 2 \<and> targetId p = 0))
   \<and> generatePacket (sendEnv 1000 2 (1/10) (1/2)) nodesNet linksNone
       = Inr (Some (pkt 4 5 100 400 0 1000))
   \<and> sourceId (pkt 4 5 100 400 0 1000) \<noteq> nid (newNode drawsNet 0)"
proof -
  have d: "distinct (map nid nodesNet)" by (simp add: net_ids)
  have j: "isJammer (newNode drawsNet 0)" "newNode drawsNet 0 \<in> set nodesNet"
    "\<not> isJammer (nodesNet ! 2)" "nid (nodesNet ! 2) = 2" "nid (newNode drawsNet 0) = 0"
    "(2::nat) < length nodesNet"
    by (simp_all add: newNode_simps nodesNet_def)
  note l = net_link02
  let ?e = "sendEnv 1000 2 (1/10) (1/2)"
  note th = packet_endpoints[OF d, of ?e linksNone]
  from th have a: "\<forall>k l tn. k < length nodesNet \<and> \<not> isJammer (nodesNet ! k) \<and> l \<in> set linksNone
              \<and> quality l > 1/10 \<and> tn \<in> set nodesNet
              \<and> ((source l = nid (nodesNet ! k) \<and> target l = nid tn)
                  \<or> (target l = nid (nodesNet ! k) \<and> source l = nid tn)) \<longrightarrow>
            (\<exists>e'. 0 \<le> rndSource e' \<and> rndSource e' < 1 \<and> 0 \<le> rndTarget e' \<and> rndTarget e' < 1
               \<and> (\<exists>p. generatePacket e' nodesNet linksNone = Inr (Some p)
                      \<and> sourceId p = nid (nodesNet ! k) \<and> targetId p = nid tn))"
    by (rule conjunct2)
  have "\<exists>e'. 0 \<le> rndSource e' \<and> rndSource e' < 1 \<and> 0 \<le> rndTarget e' \<and> rndTarget e' < 1
               \<and> (\<exists>p. generatePacket e' nodesNet linksNone = Inr (Some p)
                      \<and> sourceId p = nid (nodesNet ! 2) \<and> targetId p = nid (newNode drawsNet 0))"
    using a[rule_format, of 2 "\<lparr>source = 0, target = 2, quality = 17/40\<rparr>" "newNode drawsNet 0"]
      j l by simp
  then have b: "\<exists>e'. 0 \<le> rndSource e' \<and> rndSource e' < 1 \<and> 0 \<le> rndTarget e' \<and> rndTarget e' < 1
               \<and> (\<exists>p. generatePacket e' nodesNet linksNone = Inr (Some p)
                      \<and> sourceId p = 2 \<and> targetId p = 0)"
    by (simp only: j)
  from th have "\<forall>j \<in> set nodesNet. isJammer j \<longrightarrow> sourceId (pkt 4 5 100 400 0 1000) \<noteq> nid j"
    by (simp add: gen45)
  then have c: "sourceId (pkt 4 5 100 400 0 1000) \<noteq> nid (newNode drawsNet 0)"
    using j(1,2) by blast
  show ?thesis using d j(1,2,3) l b c by (simp add: gen45)
qed


subsection \<open>The reactive attack with a moving jammer\<close>




















end
